theory Spec2Isabelle
  imports Main "HOL-Library.Char_ord" "HOL-Library.List_Lexorder" "HOL-Library.Product_Lexorder"
    "HOL-Library.AList"
begin

section \<open>Python values\<close>

text \<open>
  The loader of \<^verbatim>\<open>checkov/terraform/parser.py\<close> works on the free-form payloads that
  \<^verbatim>\<open>hcl2.load\<close> and \<^verbatim>\<open>json.load\<close> return. A payload is a tagged value tree. Strings are
  lists of code points below 256 (\<^typ>\<open>char\<close>), compared as Python compares \<^verbatim>\<open>str\<close>
  (lexicographically by code point). A \<^verbatim>\<open>dict\<close> is the list of its items in iteration
  order, a \<^verbatim>\<open>set\<close> the list of its elements in iteration order. \<open>PTree\<close> is a
  \<^verbatim>\<open>lark.Tree\<close> left over by the HCL parser; it carries what its \<^verbatim>\<open>repr\<close> prints between
  the parentheses. Floats are left out.
\<close>

datatype exn =
    TypeError
  | AttributeError
  | IndexError
  | KeyError
  | RecursionError
  | OSError string
  | DecodeError string
  | LoaderError string

datatype pykey = KStr string | KInt int | KBool bool

datatype pyval =
    PNone
  | PBool bool
  | PInt int
  | PStr string
  | PList "pyval list"
  | PSet "pyval list"
  | PDict "(pykey \<times> pyval) list"
  | PTree string

fun key_val :: "pykey \<Rightarrow> pyval" where
  "key_val (KStr s) = PStr s"
| "key_val (KInt i) = PInt i"
| "key_val (KBool b) = PBool b"

fun is_str :: "pyval \<Rightarrow> bool" where
  "is_str (PStr s) = True"
| "is_str v = False"

fun is_dict :: "pyval \<Rightarrow> bool" where
  "is_dict (PDict d) = True"
| "is_dict v = False"

fun is_list :: "pyval \<Rightarrow> bool" where
  "is_list (PList xs) = True"
| "is_list v = False"

text \<open>Truthiness, as \<^verbatim>\<open>if data:\<close> and \<^verbatim>\<open>if not data:\<close> test it.\<close>

fun truthy :: "pyval \<Rightarrow> bool" where
  "truthy PNone = False"
| "truthy (PBool b) = b"
| "truthy (PInt i) = (i \<noteq> 0)"
| "truthy (PStr s) = (s \<noteq> [])"
| "truthy (PList xs) = (xs \<noteq> [])"
| "truthy (PSet xs) = (xs \<noteq> [])"
| "truthy (PDict d) = (d \<noteq> [])"
| "truthy (PTree t) = True"

text \<open>\<^verbatim>\<open>str(tree)\<close> of a \<^verbatim>\<open>lark.Tree\<close> is its \<^verbatim>\<open>repr\<close>, \<^verbatim>\<open>Tree(data, children)\<close>.\<close>

definition str_of_tree :: "string \<Rightarrow> string" where
  "str_of_tree t = ''Tree('' @ t @ '')''"

text \<open>\<^verbatim>\<open>d[key]\<close> for a key taken from \<^verbatim>\<open>d.keys()\<close>; the lookup cannot miss there.\<close>

definition dict_item :: "(pykey \<times> pyval) list \<Rightarrow> pykey \<Rightarrow> pyval" where
  "dict_item d k = (case map_of d k of Some v \<Rightarrow> v | None \<Rightarrow> PNone)"

text \<open>\<^verbatim>\<open>d.get(key)\<close>.\<close>

definition dict_get :: "(pykey \<times> pyval) list \<Rightarrow> pykey \<Rightarrow> pyval" where
  "dict_get d k = (case map_of d k of Some v \<Rightarrow> v | None \<Rightarrow> PNone)"

section \<open>TypeNormalizer: \<^verbatim>\<open>Parser._clean_parser_types\<close>\<close>

text \<open>
  \<^verbatim>\<open>isinstance(x, type(sorted_keys[0]))\<close>: \<^verbatim>\<open>bool\<close> is a subclass of \<^verbatim>\<open>int\<close>, so a
  \<^verbatim>\<open>bool\<close> key is an instance of the type of an \<^verbatim>\<open>int\<close> key, not the other way round.
\<close>

fun isinstance_type_of :: "pykey \<Rightarrow> pykey \<Rightarrow> bool" where
  "isinstance_type_of (KStr a) (KStr b) = True"
| "isinstance_type_of (KInt a) (KInt b) = True"
| "isinstance_type_of (KInt a) (KBool b) = True"
| "isinstance_type_of (KBool a) (KBool b) = True"
| "isinstance_type_of first x = False"

text \<open>
  \<^verbatim>\<open>sorted_keys.sort()\<close> only runs on keys of one comparable type: strings by code point,
  \<^verbatim>\<open>int\<close> and \<^verbatim>\<open>bool\<close> by number. The rank orders each such family as Python does;
  the sort is stable, as Python's is.
\<close>

fun key_rank :: "pykey \<Rightarrow> int \<times> string" where
  "key_rank (KStr s) = (0, s)"
| "key_rank (KInt i) = (i, [])"
| "key_rank (KBool b) = (if b then 1 else 0, [])"

definition sort_keys :: "pykey list \<Rightarrow> pykey list" where
  "sort_keys ks =
     (case ks of [] \<Rightarrow> []
      | first # rest \<Rightarrow>
          if list_all (isinstance_type_of first) ks then sort_key key_rank ks else ks)"

text \<open>The string elements of a list, in order, and their sorted re-insertion.\<close>

fun str_values :: "pyval list \<Rightarrow> string list" where
  "str_values [] = []"
| "str_values (PStr s # vs) = s # str_values vs"
| "str_values (v # vs) = str_values vs"

definition true_false :: "string \<Rightarrow> pyval" where
  "true_false s = (if s = ''true'' then PBool True else if s = ''false'' then PBool False else PStr s)"

lemma sort_keys_cases: "sort_keys ks = ks \<or> sort_keys ks = sort_key key_rank ks"
  by (simp add: sort_keys_def split: list.split)

lemma sort_keys_set: "set (sort_keys ks) = set ks"
  using sort_keys_cases[of ks] by (metis set_sort)

lemma dict_item_in:
  assumes "k \<in> fst ` set conf"
  shows "(k, dict_item conf k) \<in> set conf"
proof -
  from assms obtain v where v: "map_of conf k = Some v"
    by (cases "map_of conf k") (auto simp: map_of_eq_None_iff)
  then have "(k, v) \<in> set conf" by (rule map_of_SomeD)
  with v show ?thesis by (simp add: dict_item_def)
qed

lemma size_dict_member:
  "(k, v) \<in> set conf \<Longrightarrow> size v < Suc (size_list (size_prod (\<lambda>x. 0) size) conf)"
  by (induction conf) auto

lemma dict_item_size:
  assumes "k \<in> set (sort_keys (map fst conf))" and "dict_item conf k = v"
  shows "size v < Suc (size_list (size_prod (\<lambda>x. 0) size) conf)"
proof -
  from assms have "k \<in> fst ` set conf" by (simp add: sort_keys_set)
  then have "(k, dict_item conf k) \<in> set conf" by (rule dict_item_in)
  then have "size (dict_item conf k) < Suc (size_list (size_prod (\<lambda>x. 0) size) conf)"
    by (rule size_dict_member)
  with assms(2) show ?thesis by simp
qed

lemma size_list_member: "v \<in> set vs \<Longrightarrow> size v < Suc (size_list size vs)"
  by (induction vs) auto

function clean_parser_types :: "(pykey \<times> pyval) list \<Rightarrow> (pykey \<times> pyval) list"
  and clean_parser_types_lst :: "pyval list \<Rightarrow> pyval list" where
  "clean_parser_types conf =
     (if conf = [] then conf
      else
        let sorted_keys = sort_keys (map fst conf);
            sorted_conf = map (\<lambda>key. (key, dict_item conf key)) sorted_keys
        in map (\<lambda>(attribute, values).
                  if attribute = KStr ''alias'' then (attribute, values)
                  else (attribute,
                    (case values of
                       PList xs \<Rightarrow> PList (clean_parser_types_lst xs)
                     | PDict d \<Rightarrow> PDict (clean_parser_types d)
                     | PStr s \<Rightarrow> true_false s
                     | PSet xs \<Rightarrow> PList (clean_parser_types_lst xs)
                     | PTree t \<Rightarrow> PStr (str_of_tree t)
                     | _ \<Rightarrow> values)))
               sorted_conf)"
| "clean_parser_types_lst values =
     (let values' = map (\<lambda>val.
                       (case val of
                          PDict d \<Rightarrow> PDict (clean_parser_types d)
                        | PList xs \<Rightarrow> PList (clean_parser_types_lst xs)
                        | PStr s \<Rightarrow> true_false s
                        | PSet xs \<Rightarrow> PList (clean_parser_types_lst xs)
                        | _ \<Rightarrow> val))
                     values;
          str_values_in_lst = sort (str_values values');
          result_values = filter (\<lambda>val. \<not> is_str val) values'
      in result_values @ map PStr str_values_in_lst)"
  by pat_completeness auto

termination
  apply (relation "measure (\<lambda>x. case x of Inl conf \<Rightarrow> size (PDict conf) | Inr vs \<Rightarrow> size (PList vs))")
        apply simp
  subgoal for conf sk sc x a v xs
    using dict_item_size[of a conf "PList xs"] by auto
  subgoal for conf sk sc x a v xs
    using dict_item_size[of a conf "PSet xs"] by auto
  subgoal for conf sk sc x a v d
    using dict_item_size[of a conf "PDict d"] by auto
  subgoal for vs v d
    using size_list_member[of v vs] by auto
  subgoal for vs v d
    using size_list_member[of v vs] by auto
  subgoal for vs v d
    using size_list_member[of v vs] by auto
  done


declare clean_parser_types.simps [simp del] clean_parser_types_lst.simps [simp del]

text \<open>The two branches of the normalizer, named: what it does to the value of a mapping
  attribute and what it does to the element of a list.\<close>

definition clean_attr_value :: "pyval \<Rightarrow> pyval" where
  "clean_attr_value values =
     (case values of
        PList xs \<Rightarrow> PList (clean_parser_types_lst xs)
      | PDict d \<Rightarrow> PDict (clean_parser_types d)
      | PStr s \<Rightarrow> true_false s
      | PSet xs \<Rightarrow> PList (clean_parser_types_lst xs)
      | PTree t \<Rightarrow> PStr (str_of_tree t)
      | _ \<Rightarrow> values)"

definition clean_element :: "pyval \<Rightarrow> pyval" where
  "clean_element val =
     (case val of
        PDict d \<Rightarrow> PDict (clean_parser_types d)
      | PList xs \<Rightarrow> PList (clean_parser_types_lst xs)
      | PStr s \<Rightarrow> true_false s
      | PSet xs \<Rightarrow> PList (clean_parser_types_lst xs)
      | _ \<Rightarrow> val)"

section \<open>Strings and paths\<close>

definition startswith :: "string \<Rightarrow> string \<Rightarrow> bool" where
  "startswith s p = (take (length p) s = p)"

definition endswith :: "string \<Rightarrow> string \<Rightarrow> bool" where
  "endswith s p = (length p \<le> length s \<and> drop (length s - length p) s = p)"

text \<open>\<^verbatim>\<open>posixpath.basename\<close>: what follows the last slash.\<close>

definition basename :: "string \<Rightarrow> string" where
  "basename p = rev (takeWhile (\<lambda>c. c \<noteq> CHR ''/'') (rev p))"

text \<open>\<^verbatim>\<open>posixpath.dirname\<close>: the head up to the last slash, without its trailing slashes
  unless it consists of slashes only.\<close>

definition dirname :: "string \<Rightarrow> string" where
  "dirname p =
     (let head = rev (dropWhile (\<lambda>c. c \<noteq> CHR ''/'') (rev p))
      in if head \<noteq> [] \<and> \<not> list_all (\<lambda>c. c = CHR ''/'') head
         then rev (dropWhile (\<lambda>c. c = CHR ''/'') (rev head))
         else head)"

text \<open>\<^verbatim>\<open>posixpath.join\<close> of two components.\<close>

definition path_join :: "string \<Rightarrow> string \<Rightarrow> string" where
  "path_join a b =
     (if startswith b ''/'' then b
      else if a = [] \<or> endswith a ''/'' then a @ b
      else a @ ''/'' @ b)"

text \<open>\<^verbatim>\<open>str.split('/')\<close>.\<close>

fun split_slash :: "string \<Rightarrow> string list" where
  "split_slash [] = [[]]"
| "split_slash (c # cs) =
     (if c = CHR ''/'' then [] # split_slash cs
      else (case split_slash cs of [] \<Rightarrow> [[c]] | w # ws \<Rightarrow> (c # w) # ws))"

fun join_slash :: "string list \<Rightarrow> string" where
  "join_slash [] = []"
| "join_slash [w] = w"
| "join_slash (w # ws) = w @ ''/'' @ join_slash ws"

text \<open>\<^verbatim>\<open>posixpath.normpath\<close>; \<open>new_comps\<close> is kept reversed.\<close>

fun normpath_comps :: "bool \<Rightarrow> string list \<Rightarrow> string list \<Rightarrow> string list" where
  "normpath_comps initial_slashes new_comps [] = rev new_comps"
| "normpath_comps initial_slashes new_comps (c # comps) =
     (if c = [] \<or> c = ''.'' then normpath_comps initial_slashes new_comps comps
      else if c \<noteq> ''..'' \<or> (\<not> initial_slashes \<and> new_comps = [])
               \<or> (new_comps \<noteq> [] \<and> hd new_comps = ''..'')
      then normpath_comps initial_slashes (c # new_comps) comps
      else normpath_comps initial_slashes (tl new_comps) comps)"

definition normpath :: "string \<Rightarrow> string" where
  "normpath path =
     (if path = [] then ''.''
      else
        let initial_slashes = startswith path ''/'';
            slashes = (if initial_slashes \<and> startswith path ''//'' \<and> \<not> startswith path ''///''
                       then ''//'' else if initial_slashes then ''/'' else []);
            path' = slashes @ join_slash (normpath_comps initial_slashes [] (split_slash path))
        in if path' = [] then ''.'' else path')"

text \<open>\<^verbatim>\<open>str(n)\<close> of a list index.\<close>

fun digits_of :: "nat \<Rightarrow> nat \<Rightarrow> string" where
  "digits_of 0 n = []"
| "digits_of (Suc fuel) n =
     (if n < 10 then [char_of (48 + n)]
      else digits_of fuel (n div 10) @ [char_of (48 + n mod 10)])"

definition str_of_nat :: "nat \<Rightarrow> string" where
  "str_of_nat n = digits_of (Suc n) n"

text \<open>
  Modelled from the spec: \<^verbatim>\<open>get_tf_definition_key_from_module_dependency\<close> of
  \<^verbatim>\<open>checkov.common.util.parser_utils\<close> is not among the sources; the specification gives
  the key it builds as \<^verbatim>\<open><key>[<referrer_file>#<index>]\<close>.
\<close>

definition get_tf_definition_key_from_module_dependency :: "string \<Rightarrow> string \<Rightarrow> nat \<Rightarrow> string" where
  "get_tf_definition_key_from_module_dependency path module_dependency module_dependency_num =
     path @ ''['' @ module_dependency @ ''#'' @ str_of_nat module_dependency_num @ '']''"

text \<open>
  \<^verbatim>\<open>_remove_module_dependency_in_path\<close>: \<^verbatim>\<open>re.sub\<close> of \<^verbatim>\<open>\[.+\#.+\]\<close> by the empty
  string, for paths without line breaks. A match starts at the first \<^verbatim>\<open>[\<close> that is
  followed, after at least one character, by a \<^verbatim>\<open>#\<close>, then after at least one more
  character by a \<^verbatim>\<open>]\<close>; being greedy it runs to the last \<^verbatim>\<open>]\<close> of the path.
\<close>

definition matches_from_bracket :: "string \<Rightarrow> bool" where
  "matches_from_bracket rest =
     (let upto_last = rev (dropWhile (\<lambda>c. c \<noteq> CHR '']'') (rev rest));
          inner = butlast upto_last
      in upto_last \<noteq> [] \<and>
         list_ex (\<lambda>j. 0 < j \<and> j + 1 < length inner \<and> inner ! j = CHR ''#'')
                 [0..<length inner])"

fun remove_module_dependency_in_path :: "string \<Rightarrow> string" where
  "remove_module_dependency_in_path [] = []"
| "remove_module_dependency_in_path (c # cs) =
     (if c = CHR ''['' \<and> matches_from_bracket cs
      then rev (takeWhile (\<lambda>c. c \<noteq> CHR '']'') (rev cs))
      else c # remove_module_dependency_in_path cs)"

section \<open>RawParser: \<^verbatim>\<open>_load_or_die_quietly\<close> and its two filters\<close>

text \<open>
  \<^verbatim>\<open>\w\<close> of Python's \<^verbatim>\<open>re\<close> on \<^verbatim>\<open>str\<close> is Unicode-aware: the alphanumeric code points
  and the underscore. Below 256 these are the ASCII letters and digits, the underscore,
  and the Latin-1 letters and numerals listed here.
\<close>

definition py_word_char :: "char \<Rightarrow> bool" where
  "py_word_char c =
     (let n = (of_char c :: nat)
      in (48 \<le> n \<and> n \<le> 57) \<or> (65 \<le> n \<and> n \<le> 90) \<or> n = 95 \<or> (97 \<le> n \<and> n \<le> 122)
         \<or> n = 170 \<or> n = 178 \<or> n = 179 \<or> n = 181 \<or> n = 185 \<or> n = 186
         \<or> n = 188 \<or> n = 189 \<or> n = 190
         \<or> (192 \<le> n \<and> n \<le> 214) \<or> (216 \<le> n \<and> n \<le> 246) \<or> 248 \<le> n)"

definition ascii_digit :: "char \<Rightarrow> bool" where
  "ascii_digit c = (let n = (of_char c :: nat) in 48 \<le> n \<and> n \<le> 57)"

text \<open>\<^verbatim>\<open>re.fullmatch(ENTITY_NAME_PATTERN, entity_name)\<close> with the pattern
  \<^verbatim>\<open>[^\W0-9][\w-]*\<close>.\<close>

definition entity_name_fullmatch :: "string \<Rightarrow> bool" where
  "entity_name_fullmatch entity_name =
     (case entity_name of
        [] \<Rightarrow> False
      | c # cs \<Rightarrow> py_word_char c \<and> \<not> ascii_digit c
                  \<and> list_all (\<lambda>d. py_word_char d \<or> d = CHR ''-'') cs)"

text \<open>The identifier grammar of the specification, \<^verbatim>\<open>[A-Za-z_][A-Za-z0-9_-]*\<close>.\<close>

definition ascii_letter :: "char \<Rightarrow> bool" where
  "ascii_letter c = (let n = (of_char c :: nat) in (65 \<le> n \<and> n \<le> 90) \<or> (97 \<le> n \<and> n \<le> 122))"

definition identifier_grammar :: "string \<Rightarrow> bool" where
  "identifier_grammar name =
     (case name of
        [] \<Rightarrow> False
      | c # cs \<Rightarrow> (ascii_letter c \<or> c = CHR ''_'')
                  \<and> list_all (\<lambda>d. ascii_letter d \<or> ascii_digit d \<or> d = CHR ''_'' \<or> d = CHR ''-'') cs)"

text \<open>\<^verbatim>\<open>_is_valid_block\<close>. \<^verbatim>\<open>re.fullmatch\<close> raises \<^verbatim>\<open>TypeError\<close> on a key that is not a
  string.\<close>

fun is_valid_block :: "pyval \<Rightarrow> exn + bool" where
  "is_valid_block (PDict []) = Inr False"
| "is_valid_block (PDict ((KStr entity_name, v) # rest)) = Inr (entity_name_fullmatch entity_name)"
| "is_valid_block (PDict ((k, v) # rest)) = Inl TypeError"
| "is_valid_block block = Inr True"

text \<open>Iterating a value, as \<^verbatim>\<open>for block in blocks\<close> does.\<close>

fun py_iter :: "pyval \<Rightarrow> exn + pyval list" where
  "py_iter (PList xs) = Inr xs"
| "py_iter (PSet xs) = Inr xs"
| "py_iter (PDict d) = Inr (map (key_val \<circ> fst) d)"
| "py_iter (PStr s) = Inr (map (\<lambda>c. PStr [c]) s)"
| "py_iter v = Inl TypeError"

fun filter_valid_blocks :: "pyval list \<Rightarrow> exn + pyval list" where
  "filter_valid_blocks [] = Inr []"
| "filter_valid_blocks (block # blocks) =
     (case is_valid_block block of
        Inl e \<Rightarrow> Inl e
      | Inr ok \<Rightarrow>
          (case filter_valid_blocks blocks of
             Inl e \<Rightarrow> Inl e
           | Inr rest \<Rightarrow> Inr (if ok then block # rest else rest)))"

fun validate_items :: "(pykey \<times> pyval) list \<Rightarrow> exn + (pykey \<times> pyval) list" where
  "validate_items [] = Inr []"
| "validate_items ((block_type, blocks) # items) =
     (case py_iter blocks of
        Inl e \<Rightarrow> Inl e
      | Inr bs \<Rightarrow>
          (case filter_valid_blocks bs of
             Inl e \<Rightarrow> Inl e
           | Inr kept \<Rightarrow>
               (case validate_items items of
                  Inl e \<Rightarrow> Inl e
                | Inr rest \<Rightarrow> Inr ((block_type, PList kept) # rest))))"

text \<open>\<^verbatim>\<open>validate_malformed_definitions\<close>; \<^verbatim>\<open>raw_data.items()\<close> needs a mapping.\<close>

fun validate_malformed_definitions :: "pyval \<Rightarrow> exn + pyval" where
  "validate_malformed_definitions (PDict raw_data) =
     (case validate_items raw_data of Inl e \<Rightarrow> Inl e | Inr d \<Rightarrow> Inr (PDict d))"
| "validate_malformed_definitions raw_data = Inl AttributeError"

text \<open>
  Modelled from the spec: \<^verbatim>\<open>BlockType\<close> is not among the sources; the specification gives
  \<^verbatim>\<open>GOOD_BLOCK_TYPES\<close> as the set of \<^verbatim>\<open>locals\<close> and \<^verbatim>\<open>terraform\<close>.
\<close>

definition GOOD_BLOCK_TYPES :: "pykey set" where
  "GOOD_BLOCK_TYPES = {KStr ''locals'', KStr ''terraform''}"

fun py_len_is_1 :: "pyval \<Rightarrow> bool" where
  "py_len_is_1 (PDict d) = (length d = 1)"
| "py_len_is_1 v = False"

fun clean_items :: "(pykey \<times> pyval) list \<Rightarrow> exn + (pykey \<times> pyval) list" where
  "clean_items [] = Inr []"
| "clean_items ((block_type, definition_list) # items) =
     (case py_iter definition_list of
        Inl e \<Rightarrow> Inl e
      | Inr ds \<Rightarrow>
          (case clean_items items of
             Inl e \<Rightarrow> Inl e
           | Inr rest \<Rightarrow>
               Inr ((block_type,
                     PList (filter (\<lambda>definition. block_type \<in> GOOD_BLOCK_TYPES
                                      \<or> \<not> is_dict definition \<or> py_len_is_1 definition) ds))
                    # rest)))"

fun clean_bad_definitions :: "pyval \<Rightarrow> exn + pyval" where
  "clean_bad_definitions (PDict tf_definition_list) =
     (case clean_items tf_definition_list of Inl e \<Rightarrow> Inl e | Inr d \<Rightarrow> Inr (PDict d))"
| "clean_bad_definitions tf_definition_list = Inl AttributeError"

text \<open>
  The outside world of the loader. \<open>json_load\<close> and \<open>hcl2_load\<close> stand for opening the
  file and decoding it with \<^verbatim>\<open>json.load\<close> or \<^verbatim>\<open>hcl2.load\<close>; either may raise.
\<close>

record dir_entry =
  de_name :: string
  de_path :: string
  de_is_file :: "exn + bool"

record module_content =
  mc_loaded :: bool
  mc_path :: string

record env =
  scandir :: "string \<Rightarrow> exn + dir_entry list"
  json_load :: "string \<Rightarrow> exn + pyval"
  hcl2_load :: "string \<Rightarrow> exn + pyval"
  var_blocks_simple :: "string \<Rightarrow> bool list"
  filter_ignored_paths :: "string \<Rightarrow> dir_entry list \<Rightarrow> string list option \<Rightarrow> dir_entry list"
  IGNORE_HIDDEN_DIRECTORY_ENV :: bool
  registry_load :: "string \<Rightarrow> string \<Rightarrow> pyval \<Rightarrow> exn + module_content"
  env_vars :: "(string \<times> string) list"
  enable_nested_modules :: bool
  cwd :: string
  walk_sub_dirs :: "string \<Rightarrow> string list"

text \<open>\<^verbatim>\<open>_load_or_die_quietly\<close>: the payload, or \<^verbatim>\<open>None\<close> with the exception recorded under
  the file's path.\<close>

definition load_or_die_quietly ::
  "env \<Rightarrow> string \<Rightarrow> (string \<rightharpoonup> exn) \<Rightarrow> bool \<Rightarrow> pyval \<times> (string \<rightharpoonup> exn)" where
  "load_or_die_quietly E file_path parsing_errors clean_definitions =
     (let file_name = basename file_path;
          outcome =
            (if endswith file_name ''.json'' then json_load E file_path
             else
               (case hcl2_load E file_path of
                  Inl e \<Rightarrow> Inl e
                | Inr raw_data \<Rightarrow>
                    (case validate_malformed_definitions raw_data of
                       Inl e \<Rightarrow> Inl e
                     | Inr non_malformed_definitions \<Rightarrow>
                         if clean_definitions then clean_bad_definitions non_malformed_definitions
                         else Inr non_malformed_definitions)))
      in case outcome of
           Inr data \<Rightarrow> (data, parsing_errors)
         | Inl e \<Rightarrow> (PNone, parsing_errors(file_path \<mapsto> e)))"

section \<open>Acceptable module parameters\<close>

text \<open>
  \<^verbatim>\<open>is_acceptable_module_param\<close>. \<^verbatim>\<open>find_var_blocks\<close> is not among the sources:
  \<open>var_blocks_simple E s\<close> lists, for the variable blocks it finds in \<open>s\<close>, what
  \<^verbatim>\<open>is_simple_var()\<close> answers for each.
\<close>

fun is_acceptable_module_param :: "env \<Rightarrow> pyval \<Rightarrow> bool" where
  "is_acceptable_module_param E (PDict d) =
     list_all (\<lambda>(k, v). is_acceptable_module_param E v
                        \<and> (case k of KStr s \<Rightarrow> \<not> list_ex (\<lambda>simple. simple) (var_blocks_simple E s)
                            | _ \<Rightarrow> True)) d"
| "is_acceptable_module_param E (PSet xs) = list_all (is_acceptable_module_param E) xs"
| "is_acceptable_module_param E (PList xs) = list_all (is_acceptable_module_param E) xs"
| "is_acceptable_module_param E (PStr s) = (\<not> list_ex (\<lambda>simple. simple) (var_blocks_simple E s))"
| "is_acceptable_module_param E v = True"

section \<open>The parser's state\<close>

text \<open>
  The payload of a parsed file is one Python object: the definition store, the cache of
  loaded files and the scratch maps of the module resolver hold references to it, and the
  module resolver writes the \<^verbatim>\<open>__resolved__\<close> list into it in place. The state
  therefore keeps the payload objects in a store (\<open>heap\<close>, addressed by position) and
  the maps hold addresses.
\<close>

datatype nested_data = NestedData nat string "nested_data option"

record dl_args =
  a_directory :: string
  a_specified_vars :: "(pykey \<times> pyval) list option"
  a_vars_files :: "string list option"
  a_excluded_paths :: "string list option"
  a_nested_modules_data :: "nested_data option"

type_synonym module_address = "string \<times> nat \<times> pykey"

type_synonym var_map = "pykey \<rightharpoonup> pyval \<times> string"

record pstate =
  heap :: "pyval list"
  out_definitions :: "(string \<times> nat) list"
  out_parsing_errors :: "string \<rightharpoonup> exn"
  loaded_files_map :: "string \<rightharpoonup> nat"
  loaded_modules :: "module_address set"
  external_variables_data :: "(pykey \<times> pyval \<times> string) list"
  keys_referenced_as_modules :: "string set"
  module_to_resolved :: "(module_address \<times> pyval) list"
  visited_definition_keys :: "string set"
  keys_to_remove :: "string set"
  module_address_map :: "string \<times> pykey \<rightharpoonup> string"
  external_modules_source_map :: "string \<times> pyval \<rightharpoonup> string"
  parsed_directories :: "string set"

definition hget :: "pyval list \<Rightarrow> nat \<Rightarrow> pyval" where
  "hget h r = (if r < length h then h ! r else PNone)"

text \<open>\<^verbatim>\<open>Parser._load_files\<close>: cached payloads first, then the files parsed now, each with
  its errors merged into the sink and its result cached under a path not yet cached.\<close>

fun load_files_parse ::
  "env \<Rightarrow> dir_entry list \<Rightarrow> (string \<times> nat) list \<times> pstate \<Rightarrow> (string \<times> nat) list \<times> pstate" where
  "load_files_parse E [] (files_to_data, s) = (files_to_data, s)"
| "load_files_parse E (file # files) (files_to_data, s) =
     (let (result, parsing_errors) = load_or_die_quietly E (de_path file) Map.empty True;
          r = length (heap s);
          s1 = s\<lparr>heap := heap s @ [result],
                 out_parsing_errors := out_parsing_errors s ++ parsing_errors\<rparr>;
          s2 = (if loaded_files_map s1 (de_path file) = None
                then s1\<lparr>loaded_files_map := (loaded_files_map s1)(de_path file \<mapsto> r)\<rparr>
                else s1)
      in load_files_parse E files (files_to_data @ [(de_path file, r)], s2))"

definition cached_data :: "pstate \<Rightarrow> dir_entry \<Rightarrow> nat option" where
  "cached_data s file =
     (case loaded_files_map s (de_path file) of
        None \<Rightarrow> None
      | Some r \<Rightarrow> if truthy (hget (heap s) r) then Some r else None)"

definition load_files :: "env \<Rightarrow> dir_entry list \<Rightarrow> pstate \<Rightarrow> (string \<times> nat) list \<times> pstate" where
  "load_files E files s =
     (let files_to_data = concat (map (\<lambda>file. case cached_data s file of
                                                None \<Rightarrow> [] | Some r \<Rightarrow> [(de_path file, r)]) files);
          files_to_parse = filter (\<lambda>file. cached_data s file = None) files
      in load_files_parse E files_to_parse (files_to_data, s))"

section \<open>VarResolver: stages 1 and 2 of \<^verbatim>\<open>Parser._internal_dir_load\<close>\<close>

record found_files =
  hcl_tfvars :: "dir_entry option"
  json_tfvars :: "dir_entry option"
  auto_vars_files :: "dir_entry list"
  explicit_var_files :: "dir_entry list"
  tf_files_to_load :: "dir_entry list"

definition no_files :: found_files where
  "no_files = \<lparr>hcl_tfvars = None, json_tfvars = None, auto_vars_files = [],
               explicit_var_files = [], tf_files_to_load = []\<rparr>"

text \<open>One round of the loop over \<^verbatim>\<open>dir_contents\<close>.\<close>

definition classify_file :: "string list option \<Rightarrow> dir_entry \<Rightarrow> found_files \<Rightarrow> found_files" where
  "classify_file vars_files file F =
     (case de_is_file file of
        Inl e \<Rightarrow> F
      | Inr False \<Rightarrow> F
      | Inr True \<Rightarrow>
          if de_name file = ''terraform.tfvars.json'' then F\<lparr>json_tfvars := Some file\<rparr>
          else if de_name file = ''terraform.tfvars'' then F\<lparr>hcl_tfvars := Some file\<rparr>
          else if endswith (de_name file) ''.auto.tfvars.json'' \<or> endswith (de_name file) ''.auto.tfvars''
          then F\<lparr>auto_vars_files := auto_vars_files F @ [file]\<rparr>
          else if (case vars_files of None \<Rightarrow> False
                   | Some vf \<Rightarrow> vf \<noteq> [] \<and> de_path file \<in> set vf)
          then F\<lparr>explicit_var_files := explicit_var_files F @ [file]\<rparr>
          else if endswith (de_name file) ''.tf'' \<or> endswith (de_name file) ''.hcl''
          then F\<lparr>tf_files_to_load := tf_files_to_load F @ [file]\<rparr>
          else F)"

definition classify_files :: "string list option \<Rightarrow> dir_entry list \<Rightarrow> found_files" where
  "classify_files vars_files dir_contents =
     fold (classify_file vars_files) dir_contents no_files"

text \<open>The variable defaults of one payload: the loops over \<^verbatim>\<open>var_blocks\<close> and over the
  items of each block. \<^verbatim>\<open>default_value[0]\<close> raises on an empty list.\<close>

fun var_defaults_items ::
  "string \<Rightarrow> (pykey \<times> pyval) list \<Rightarrow> var_map \<times> (pykey \<times> pyval \<times> string) list
     \<Rightarrow> exn + var_map \<times> (pykey \<times> pyval \<times> string) list" where
  "var_defaults_items file [] acc = Inr acc"
| "var_defaults_items file ((var_name, var_definition) # items) (vm, evd) =
     (case var_definition of
        PDict vd \<Rightarrow>
          (case dict_get vd (KStr ''default'') of
             PList [] \<Rightarrow> Inl IndexError
           | PList (d0 # ds) \<Rightarrow>
               var_defaults_items file items
                 (vm(var_name \<mapsto> (d0, file)), evd @ [(var_name, d0, file)])
           | _ \<Rightarrow> var_defaults_items file items (vm, evd))
      | _ \<Rightarrow> var_defaults_items file items (vm, evd))"

fun var_defaults_blocks ::
  "string \<Rightarrow> pyval list \<Rightarrow> var_map \<times> (pykey \<times> pyval \<times> string) list
     \<Rightarrow> exn + var_map \<times> (pykey \<times> pyval \<times> string) list" where
  "var_defaults_blocks file [] acc = Inr acc"
| "var_defaults_blocks file (var_block # var_blocks) acc =
     (case var_block of
        PDict items \<Rightarrow>
          (case var_defaults_items file items acc of
             Inl e \<Rightarrow> Inl e
           | Inr acc' \<Rightarrow> var_defaults_blocks file var_blocks acc')
      | _ \<Rightarrow> var_defaults_blocks file var_blocks acc)"

text \<open>The loop over the sorted \<^verbatim>\<open>files_to_data\<close>: a non-empty payload enters the
  definition store under the file's path and gives its variable defaults.
  \<^verbatim>\<open>data.get\<close> needs a mapping.\<close>

fun store_files ::
  "(string \<times> nat) list \<Rightarrow> var_map \<times> pstate \<Rightarrow> (exn + var_map) \<times> pstate" where
  "store_files [] (vm, s) = (Inr vm, s)"
| "store_files ((file, r) # rest) (vm, s) =
     (let data = hget (heap s) r
      in if \<not> truthy data then store_files rest (vm, s)
         else
           let s1 = s\<lparr>out_definitions := AList.update file r (out_definitions s)\<rparr>
           in (case data of
                 PDict d \<Rightarrow>
                   (case dict_get d (KStr ''variable'') of
                      PList var_blocks \<Rightarrow>
                        (case var_defaults_blocks file var_blocks (vm, external_variables_data s1) of
                           Inl e \<Rightarrow> (Inl e, s1)
                         | Inr (vm', evd') \<Rightarrow>
                             store_files rest (vm', s1\<lparr>external_variables_data := evd'\<rparr>))
                    | _ \<Rightarrow> store_files rest (vm, s1))
               | _ \<Rightarrow> (Inl AttributeError, s1)))"

text \<open>\<^verbatim>\<open>_safe_index(sequence_hopefully, 0)\<close>: only \<^verbatim>\<open>IndexError\<close> is caught.\<close>

fun safe_index0 :: "pyval \<Rightarrow> exn + pyval" where
  "safe_index0 (PList []) = Inr PNone"
| "safe_index0 (PList (x # xs)) = Inr x"
| "safe_index0 (PStr []) = Inr PNone"
| "safe_index0 (PStr (c # cs)) = Inr (PStr [c])"
| "safe_index0 (PDict d) = (case map_of d (KInt 0) of Some v \<Rightarrow> Inr v | None \<Rightarrow> Inl KeyError)"
| "safe_index0 v = Inl TypeError"

fun safe_index0_items :: "(pykey \<times> pyval) list \<Rightarrow> exn + (pykey \<times> pyval) list" where
  "safe_index0_items [] = Inr []"
| "safe_index0_items ((k, v) # items) =
     (case safe_index0 v of
        Inl e \<Rightarrow> Inl e
      | Inr v0 \<Rightarrow> (case safe_index0_items items of Inl e \<Rightarrow> Inl e | Inr rest \<Rightarrow> Inr ((k, v0) # rest)))"

text \<open>\<^verbatim>\<open>data.items()\<close>.\<close>

fun py_items :: "pyval \<Rightarrow> exn + (pykey \<times> pyval) list" where
  "py_items (PDict d) = Inr d"
| "py_items v = Inl AttributeError"

text \<open>\<^verbatim>\<open>var_value_and_file_map.update({k: (v, origin) for k, v in items})\<close> together with
  the matching \<^verbatim>\<open>external_variables_data.extend\<close>.\<close>

definition bind_vars ::
  "(pykey \<times> pyval) list \<Rightarrow> string \<Rightarrow> var_map \<times> pstate \<Rightarrow> var_map \<times> pstate" where
  "bind_vars items origin = (\<lambda>(vm, s).
     (fold (\<lambda>(k, v) m. m(k \<mapsto> (v, origin))) items vm,
      s\<lparr>external_variables_data :=
           external_variables_data s @ map (\<lambda>(k, v). (k, v, origin)) items\<rparr>))"

text \<open>The loop over \<^verbatim>\<open>self.env_vars.items()\<close>.\<close>

fun bind_env_vars :: "(string \<times> string) list \<Rightarrow> var_map \<times> pstate \<Rightarrow> var_map \<times> pstate" where
  "bind_env_vars [] acc = acc"
| "bind_env_vars ((key, val) # rest) (vm, s) =
     (if \<not> startswith key ''TF_VAR_'' then bind_env_vars rest (vm, s)
      else bind_env_vars rest
             (vm(KStr (drop 7 key) \<mapsto> (PStr val, ''env:'' @ key)),
              s\<lparr>external_variables_data :=
                   external_variables_data s @ [(KStr (drop 7 key), PStr val, ''env:'' @ key)]\<rparr>))"

text \<open>The loops over the loaded \<^verbatim>\<open>*.auto.tfvars\<close> files and over the explicit var-files.\<close>

fun bind_var_files ::
  "(string \<times> nat) list \<Rightarrow> var_map \<times> pstate \<Rightarrow> (exn + var_map) \<times> pstate" where
  "bind_var_files [] (vm, s) = (Inr vm, s)"
| "bind_var_files ((var_file, r) # rest) (vm, s) =
     (let data = hget (heap s) r
      in if \<not> truthy data then bind_var_files rest (vm, s)
         else (case py_items data of
                 Inl e \<Rightarrow> (Inl e, s)
               | Inr items \<Rightarrow> bind_var_files rest (bind_vars items var_file (vm, s))))"

text \<open>\<^verbatim>\<open>vars_files.index(path)\<close> for a path that is in the list.\<close>

definition index_in :: "string list \<Rightarrow> string \<Rightarrow> nat" where
  "index_in xs x = length (takeWhile (\<lambda>y. y \<noteq> x) xs)"

text \<open>Sequencing: an exception ends the directory load, the state stays as it is then.\<close>

fun then_step ::
  "(exn + var_map) \<times> pstate \<Rightarrow> (var_map \<times> pstate \<Rightarrow> (exn + var_map) \<times> pstate)
     \<Rightarrow> (exn + var_map) \<times> pstate" where
  "then_step (Inl e, s) f = (Inl e, s)"
| "then_step (Inr vm, s) f = f (vm, s)"

definition step_env :: "env \<Rightarrow> var_map \<times> pstate \<Rightarrow> (exn + var_map) \<times> pstate" where
  "step_env E acc = (case bind_env_vars (env_vars E) acc of (vm, s) \<Rightarrow> (Inr vm, s))"

text \<open>\<^verbatim>\<open>terraform.tfvars\<close>: loaded without the bad-definition cleanup, each value
  unwrapped with \<^verbatim>\<open>_safe_index(v, 0)\<close>.\<close>

definition step_hcl_tfvars ::
  "env \<Rightarrow> found_files \<Rightarrow> var_map \<times> pstate \<Rightarrow> (exn + var_map) \<times> pstate" where
  "step_hcl_tfvars E F = (\<lambda>(vm, s).
     (case hcl_tfvars F of
        None \<Rightarrow> (Inr vm, s)
      | Some file \<Rightarrow>
          let (data, errs) = load_or_die_quietly E (de_path file) (out_parsing_errors s) False;
              s1 = s\<lparr>out_parsing_errors := errs\<rparr>
          in if \<not> truthy data then (Inr vm, s1)
             else (case py_items data of
                     Inl e \<Rightarrow> (Inl e, s1)
                   | Inr items \<Rightarrow>
                       (case safe_index0_items items of
                          Inl e \<Rightarrow> (Inl e, s1)
                        | Inr items0 \<Rightarrow>
                            (case bind_vars items0 (de_path file) (vm, s1) of
                               (vm', s2) \<Rightarrow> (Inr vm', s2))))))"

text \<open>\<^verbatim>\<open>terraform.tfvars.json\<close>: the values as decoded.\<close>

definition step_json_tfvars ::
  "env \<Rightarrow> found_files \<Rightarrow> var_map \<times> pstate \<Rightarrow> (exn + var_map) \<times> pstate" where
  "step_json_tfvars E F = (\<lambda>(vm, s).
     (case json_tfvars F of
        None \<Rightarrow> (Inr vm, s)
      | Some file \<Rightarrow>
          let (data, errs) = load_or_die_quietly E (de_path file) (out_parsing_errors s) True;
              s1 = s\<lparr>out_parsing_errors := errs\<rparr>
          in if \<not> truthy data then (Inr vm, s1)
             else (case py_items data of
                     Inl e \<Rightarrow> (Inl e, s1)
                   | Inr items \<Rightarrow>
                       (case bind_vars items (de_path file) (vm, s1) of
                          (vm', s2) \<Rightarrow> (Inr vm', s2)))))"

definition step_auto_vars ::
  "env \<Rightarrow> found_files \<Rightarrow> var_map \<times> pstate \<Rightarrow> (exn + var_map) \<times> pstate" where
  "step_auto_vars E F = (\<lambda>(vm, s).
     let (auto_var_files_to_data, s1) = load_files E (auto_vars_files F) s
     in bind_var_files (sort_key fst auto_var_files_to_data) (vm, s1))"

definition step_explicit_vars ::
  "env \<Rightarrow> string list option \<Rightarrow> found_files \<Rightarrow> var_map \<times> pstate \<Rightarrow> (exn + var_map) \<times> pstate" where
  "step_explicit_vars E vars_files F = (\<lambda>(vm, s).
     let (explicit_var_files_to_data, s1) = load_files E (explicit_var_files F) s
     in bind_var_files
          (sort_key (\<lambda>x. index_in (case vars_files of None \<Rightarrow> [] | Some vf \<Rightarrow> vf) (fst x))
             explicit_var_files_to_data)
          (vm, s1))"

definition step_specified ::
  "(pykey \<times> pyval) list option \<Rightarrow> var_map \<times> pstate \<Rightarrow> (exn + var_map) \<times> pstate" where
  "step_specified specified_vars acc =
     (case specified_vars of
        None \<Rightarrow> (Inr (fst acc), snd acc)
      | Some sv \<Rightarrow> (case bind_vars sv ''manual specification'' acc of (vm, s) \<Rightarrow> (Inr vm, s)))"

text \<open>Stage 1: the directory listing, its classification, and the resource files loaded
  into the definition store in the order of their paths, with the variable defaults.\<close>

definition dir_files :: "env \<Rightarrow> dl_args \<Rightarrow> exn + found_files" where
  "dir_files E A =
     (case scandir E (a_directory A) of
        Inl e \<Rightarrow> Inl e
      | Inr listing \<Rightarrow>
          let dir_contents =
                (if (case a_excluded_paths A of None \<Rightarrow> False | Some ex \<Rightarrow> ex \<noteq> [])
                    \<or> IGNORE_HIDDEN_DIRECTORY_ENV E
                 then filter_ignored_paths E (a_directory A) listing (a_excluded_paths A)
                 else listing)
          in Inr (classify_files (a_vars_files A) dir_contents))"

definition step_defaults :: "env \<Rightarrow> found_files \<Rightarrow> pstate \<Rightarrow> (exn + var_map) \<times> pstate" where
  "step_defaults E F s =
     (let (files_to_data, s1) = load_files E (tf_files_to_load F) s
      in store_files (sort_key fst files_to_data) (Map.empty, s1))"

text \<open>Stages 1 and 2: from the directory listing to \<^verbatim>\<open>var_value_and_file_map\<close>.\<close>

definition load_dir_vars :: "env \<Rightarrow> dl_args \<Rightarrow> pstate \<Rightarrow> (exn + var_map) \<times> pstate" where
  "load_dir_vars E A s =
     (case dir_files E A of
        Inl e \<Rightarrow> (Inl e, s)
      | Inr F \<Rightarrow>
          then_step (then_step (then_step (then_step (then_step (then_step
            (step_defaults E F s)
            (step_env E))
            (step_hcl_tfvars E F))
            (step_json_tfvars E F))
            (step_auto_vars E F))
            (step_explicit_vars E (a_vars_files A) F))
            (step_specified (a_specified_vars A)))"

section \<open>ModuleResolver: \<^verbatim>\<open>Parser._load_modules\<close>\<close>

text \<open>
  Modelled from the spec: \<^verbatim>\<open>RESOLVED_MODULE_ENTRY_NAME\<close> of
  \<^verbatim>\<open>checkov.common.util.consts\<close> is not among the sources; the specification names the
  field \<^verbatim>\<open>__resolved__\<close>.
\<close>

definition RESOLVED_MODULE_ENTRY_NAME :: pykey where
  "RESOLVED_MODULE_ENTRY_NAME = KStr ''__resolved__''"

text \<open>
  Modelled from the spec: the \<^verbatim>\<open>deep_merge\<close> library is not among the sources; the
  specification gives its rules: mappings merge recursively, lists concatenate, and at any
  other conflict the incoming side wins. The merge changes its first argument in place.
\<close>

fun deep_merge :: "pyval \<Rightarrow> pyval \<Rightarrow> pyval"
  and deep_merge_items :: "(pykey \<times> pyval) list \<Rightarrow> (pykey \<times> pyval) list \<Rightarrow> (pykey \<times> pyval) list" where
  "deep_merge a (PDict bs) = (case a of PDict as \<Rightarrow> PDict (deep_merge_items as bs) | _ \<Rightarrow> PDict bs)"
| "deep_merge a (PList bs) = (case a of PList as \<Rightarrow> PList (as @ bs) | _ \<Rightarrow> PList bs)"
| "deep_merge a PNone = PNone"
| "deep_merge a (PBool b) = PBool b"
| "deep_merge a (PInt i) = PInt i"
| "deep_merge a (PStr s) = PStr s"
| "deep_merge a (PSet xs) = PSet xs"
| "deep_merge a (PTree t) = PTree t"
| "deep_merge_items as [] = as"
| "deep_merge_items as ((k, v) # bs) =
     deep_merge_items
       (case map_of as k of
          Some av \<Rightarrow> AList.update k (deep_merge av v) as
        | None \<Rightarrow> as @ [(k, v)])
       bs"

text \<open>The merge of two maps from definition keys to payload objects: a key of both sides
  merges the incoming payload into the object the base holds.\<close>

fun merge_definitions ::
  "(string \<times> nat) list \<Rightarrow> (string \<times> nat) list \<Rightarrow> pyval list \<Rightarrow> (string \<times> nat) list \<times> pyval list" where
  "merge_definitions base [] h = (base, h)"
| "merge_definitions base ((k, r) # incoming) h =
     (case map_of base k of
        None \<Rightarrow> merge_definitions (base @ [(k, r)]) incoming h
      | Some rb \<Rightarrow>
          if (is_dict (hget h rb) \<and> is_dict (hget h r)) \<or> (is_list (hget h rb) \<and> is_list (hget h r))
          then merge_definitions base incoming (h[rb := deep_merge (hget h rb) (hget h r)])
          else merge_definitions (AList.update k r base) incoming h)"

text \<open>
  \<^verbatim>\<open>resolved_loc_list.sort()\<close>. Strings sort by code point, numbers by value; a list of
  at most one element needs no comparison. Any other list is taken to raise the
  \<^verbatim>\<open>TypeError\<close> of comparing values of different types, with the list left as it was.
\<close>

fun the_int :: "pyval \<Rightarrow> int option" where
  "the_int (PInt i) = Some i"
| "the_int (PBool b) = Some (if b then 1 else 0)"
| "the_int v = None"

definition py_sort :: "pyval list \<Rightarrow> exn + pyval list" where
  "py_sort xs =
     (if length xs \<le> 1 then Inr xs
      else if list_all is_str xs then Inr (map PStr (sort (str_values xs)))
      else if list_all (\<lambda>x. the_int x \<noteq> None) xs
      then Inr (sort_key (\<lambda>x. case the_int x of Some i \<Rightarrow> i | None \<Rightarrow> 0) xs)
      else Inl TypeError)"

text \<open>Reading and writing the data of one module call inside a payload:
  \<^verbatim>\<open>payload["module"][module_index][module_call_name]\<close>.\<close>

definition module_call_data_of :: "pyval \<Rightarrow> nat \<Rightarrow> pykey \<Rightarrow> (pykey \<times> pyval) list option" where
  "module_call_data_of payload module_index module_call_name =
     (case payload of
        PDict d \<Rightarrow>
          (case map_of d (KStr ''module'') of
             Some (PList module_calls) \<Rightarrow>
               if module_index < length module_calls
               then (case module_calls ! module_index of
                       PDict module_call \<Rightarrow>
                         (case map_of module_call module_call_name of
                            Some (PDict module_call_data) \<Rightarrow> Some module_call_data
                          | _ \<Rightarrow> None)
                     | _ \<Rightarrow> None)
               else None
           | _ \<Rightarrow> None)
      | _ \<Rightarrow> None)"

definition set_module_call_data :: "pyval \<Rightarrow> nat \<Rightarrow> pykey \<Rightarrow> (pykey \<times> pyval) list \<Rightarrow> pyval" where
  "set_module_call_data payload module_index module_call_name module_call_data =
     (case payload of
        PDict d \<Rightarrow>
          (case map_of d (KStr ''module'') of
             Some (PList module_calls) \<Rightarrow>
               if module_index < length module_calls
               then (case module_calls ! module_index of
                       PDict module_call \<Rightarrow>
                         PDict (AList.update (KStr ''module'')
                           (PList (module_calls[module_index :=
                              PDict (AList.update module_call_name (PDict module_call_data) module_call)]))
                           d)
                     | _ \<Rightarrow> payload)
               else payload
           | _ \<Rightarrow> payload)
      | _ \<Rightarrow> payload)"

text \<open>The \<^verbatim>\<open>__resolved__\<close> entry of a module call as the payload object holds it now.\<close>

definition resolved_entry :: "pyval \<Rightarrow> nat \<Rightarrow> pykey \<Rightarrow> pyval" where
  "resolved_entry payload module_index module_call_name =
     (case module_call_data_of payload module_index module_call_name of
        None \<Rightarrow> PNone
      | Some module_call_data \<Rightarrow> dict_get module_call_data RESOLVED_MODULE_ENTRY_NAME)"

definition set_resolved_entry :: "pyval \<Rightarrow> nat \<Rightarrow> pykey \<Rightarrow> pyval \<Rightarrow> pyval" where
  "set_resolved_entry payload module_index module_call_name resolved =
     (case module_call_data_of payload module_index module_call_name of
        None \<Rightarrow> payload
      | Some module_call_data \<Rightarrow>
          set_module_call_data payload module_index module_call_name
            (AList.update RESOLVED_MODULE_ENTRY_NAME resolved module_call_data))"

text \<open>\<^verbatim>\<open>Parser.get_file_key_with_nested_data\<close> and \<^verbatim>\<open>Parser.get_new_nested_module_key\<close>;
  the latter also marks keys as visited.\<close>

fun file_key_nested :: "string \<Rightarrow> nested_data \<Rightarrow> string" where
  "file_key_nested file (NestedData nested_module_index nested_file nd) =
     get_tf_definition_key_from_module_dependency file
       (case nd of None \<Rightarrow> nested_file | Some nd' \<Rightarrow> file_key_nested nested_file nd')
       nested_module_index"

definition get_file_key_with_nested_data :: "string \<Rightarrow> nested_data option \<Rightarrow> string" where
  "get_file_key_with_nested_data file nested_data =
     (case nested_data of None \<Rightarrow> file | Some nd \<Rightarrow> file_key_nested file nd)"

fun new_nested_key :: "string \<Rightarrow> string \<Rightarrow> nat \<Rightarrow> nested_data \<Rightarrow> string set \<Rightarrow> string \<times> string set" where
  "new_nested_key key file module_index (NestedData nested_module_index nested_file nd) visited =
     (let visited_key_to_add = get_tf_definition_key_from_module_dependency key file module_index;
          visited1 = insert visited_key_to_add visited;
          (nested_key, visited2) =
            (case nd of
               None \<Rightarrow> (get_tf_definition_key_from_module_dependency [] nested_file nested_module_index,
                         visited1)
             | Some nd' \<Rightarrow> new_nested_key [] nested_file nested_module_index nd' visited1)
      in (get_tf_definition_key_from_module_dependency key (file @ nested_key) module_index, visited2))"

definition get_new_nested_module_key ::
  "string \<Rightarrow> string \<Rightarrow> nat \<Rightarrow> nested_data option \<Rightarrow> string set \<Rightarrow> string \<times> string set" where
  "get_new_nested_module_key key file module_index nested_data visited =
     (case nested_data of
        None \<Rightarrow> (get_tf_definition_key_from_module_dependency key file module_index, visited)
      | Some nd \<Rightarrow> new_nested_key key file module_index nd visited)"

text \<open>\<^verbatim>\<open>needle in haystack\<close> for two strings.\<close>

definition is_substring :: "string \<Rightarrow> string \<Rightarrow> bool" where
  "is_substring needle haystack =
     list_ex (\<lambda>i. take (length needle) (drop i haystack) = needle) [0..<Suc (length haystack)]"

text \<open>
  \<^verbatim>\<open>if new_key not in resolved_loc_list: resolved_loc_list.append(new_key)\<close>. Only a list
  can be appended to; what is tested on a value of another type follows that type.
\<close>

fun append_if_absent :: "string \<Rightarrow> pyval \<Rightarrow> exn + pyval" where
  "append_if_absent new_key (PList xs) =
     Inr (PList (if PStr new_key \<in> set xs then xs else xs @ [PStr new_key]))"
| "append_if_absent new_key (PStr s) =
     (if is_substring new_key s then Inr (PStr s) else Inl AttributeError)"
| "append_if_absent new_key (PDict d) =
     (if KStr new_key \<in> fst ` set d then Inr (PDict d) else Inl AttributeError)"
| "append_if_absent new_key (PSet xs) =
     (if PStr new_key \<in> set xs then Inr (PSet xs) else Inl AttributeError)"
| "append_if_absent new_key PNone = Inl TypeError"
| "append_if_absent new_key (PBool b) = Inl TypeError"
| "append_if_absent new_key (PInt i) = Inl TypeError"
| "append_if_absent new_key (PTree t) = Inl TypeError"

text \<open>The locals of the key-rewriting loop: the scratch map of the module's definitions and
  the resolved list of the call.\<close>

record rk_locals =
  module_definitions :: "(string \<times> nat) list"
  resolved_loc_list :: pyval

text \<open>The loop \<^verbatim>\<open>for key in keys\<close>. An exception leaves it with the state as changed so
  far.\<close>

fun rewrite_keys ::
  "env \<Rightarrow> string \<Rightarrow> nat \<Rightarrow> pykey \<Rightarrow> nested_data option \<Rightarrow> string list
     \<Rightarrow> rk_locals \<times> pstate \<Rightarrow> exn option \<times> rk_locals \<times> pstate" where
  "rewrite_keys E file module_index module_call_name nested_data [] (L, s) = (None, L, s)"
| "rewrite_keys E file module_index module_call_name nested_data (key # keys) (L, s) =
     (if endswith key '']'' \<or> endswith file '']''
      then rewrite_keys E file module_index module_call_name nested_data keys (L, s)
      else
        let s1 = s\<lparr>keys_referenced_as_modules := insert key (keys_referenced_as_modules s)\<rparr>;
            (new_key, visited) =
              (if enable_nested_modules E
               then get_new_nested_module_key key file module_index nested_data
                      (visited_definition_keys s1)
               else (get_tf_definition_key_from_module_dependency key file module_index,
                     visited_definition_keys s1));
            s2 = s1\<lparr>visited_definition_keys := visited\<rparr>
        in if enable_nested_modules E \<and> new_key \<in> visited_definition_keys s2
           then (if map_of (out_definitions s2) key = None
                 then (Some KeyError,
                       L\<lparr>module_definitions := AList.delete key (module_definitions L)\<rparr>, s2)
                 else rewrite_keys E file module_index module_call_name nested_data keys
                        (L\<lparr>module_definitions := AList.delete key (module_definitions L)\<rparr>,
                         s2\<lparr>out_definitions := AList.delete key (out_definitions s2)\<rparr>))
           else
             (case map_of (module_definitions L) key of
                None \<Rightarrow> (Some KeyError, L, s2)
              | Some r \<Rightarrow>
                  let L1 = L\<lparr>module_definitions :=
                               AList.delete key (AList.update new_key r (module_definitions L))\<rparr>
                  in if map_of (out_definitions s2) key = None then (Some KeyError, L1, s2)
                     else
                       let s3 = s2\<lparr>out_definitions := AList.delete key (out_definitions s2),
                                    keys_to_remove := insert key (keys_to_remove s2)\<rparr>;
                           s4 = (if enable_nested_modules E
                                 then s3\<lparr>visited_definition_keys :=
                                           insert new_key (visited_definition_keys s3)\<rparr>
                                 else s3)
                       in (case append_if_absent new_key (resolved_loc_list L1) of
                             Inl e \<Rightarrow> (Some e, L1, s4)
                           | Inr resolved \<Rightarrow>
                               let s5 = (if module_address_map s4 (file, module_call_name) = None
                                         then s4\<lparr>module_address_map :=
                                                   (module_address_map s4)
                                                     ((file, module_call_name) \<mapsto> str_of_nat module_index)\<rparr>
                                         else s4)
                               in rewrite_keys E file module_index module_call_name nested_data keys
                                    (L1\<lparr>resolved_loc_list := resolved\<rparr>, s5))))"

text \<open>\<^verbatim>\<open>resolved_loc_list.sort()\<close> after the loop.\<close>

fun sort_resolved :: "pyval \<Rightarrow> exn + pyval" where
  "sort_resolved (PList xs) = (case py_sort xs of Inl e \<Rightarrow> Inl e | Inr ys \<Rightarrow> Inr (PList ys))"
| "sort_resolved v = Inl AttributeError"

text \<open>The locals of \<^verbatim>\<open>_load_modules\<close>.\<close>

record lm_locals =
  all_module_definitions :: "(string \<times> nat) list"
  skipped_a_module :: bool

text \<open>The recursive directory load that \<^verbatim>\<open>_load_modules\<close> starts on the content of a
  module: its result is the exception it raised, if any, and the new state.\<close>

type_synonym descend = "dl_args \<Rightarrow> pstate \<Rightarrow> exn option \<times> pstate"

text \<open>The parameters of a module call: every attribute but \<^verbatim>\<open>source\<close> and
  \<^verbatim>\<open>version\<close>, a list replaced by its first element (\<^verbatim>\<open>v[0]\<close> raises on an empty
  list).\<close>

fun module_params :: "(pykey \<times> pyval) list \<Rightarrow> exn + (pykey \<times> pyval) list" where
  "module_params [] = Inr []"
| "module_params ((k, v) # items) =
     (if k = KStr ''source'' \<or> k = KStr ''version'' then module_params items
      else
        (case (case v of PList [] \<Rightarrow> Inl IndexError | PList (x # xs) \<Rightarrow> Inr x | _ \<Rightarrow> Inr v) of
           Inl e \<Rightarrow> Inl e
         | Inr v0 \<Rightarrow>
             (case module_params items of
                Inl e \<Rightarrow> Inl e
              | Inr rest \<Rightarrow> Inr ((k, v0) # rest))))"

text \<open>The unresolved-parameter gate: the loop that sets \<^verbatim>\<open>has_unresolved_params\<close>.\<close>

definition has_unresolved_params :: "env \<Rightarrow> (pykey \<times> pyval) list \<Rightarrow> bool" where
  "has_unresolved_params E specified_vars =
     list_ex (\<lambda>(k, v). \<not> is_acceptable_module_param E v
                        \<or> \<not> is_acceptable_module_param E (key_val k)) specified_vars"

fun is_hashable :: "pyval \<Rightarrow> bool" where
  "is_hashable (PList xs) = False"
| "is_hashable (PSet xs) = False"
| "is_hashable (PDict d) = False"
| "is_hashable v = True"

text \<open>Where the resolved list of a call lives: in flat mode inside the payload object of
  the referring file, in nested mode in \<open>module_to_resolved\<close>.\<close>

definition read_resolved ::
  "env \<Rightarrow> module_address \<Rightarrow> nat \<Rightarrow> nat \<Rightarrow> pykey \<Rightarrow> pstate \<Rightarrow> pyval" where
  "read_resolved E current_nested_data r module_index module_call_name s =
     (if enable_nested_modules E
      then (case map_of (module_to_resolved s) current_nested_data of
              Some v \<Rightarrow> v | None \<Rightarrow> PList [])
      else (case resolved_entry (hget (heap s) r) module_index module_call_name of
              PNone \<Rightarrow> PList []
            | v \<Rightarrow> v))"

definition write_resolved ::
  "env \<Rightarrow> module_address \<Rightarrow> nat \<Rightarrow> nat \<Rightarrow> pykey \<Rightarrow> pyval \<Rightarrow> pstate \<Rightarrow> pstate" where
  "write_resolved E current_nested_data r module_index module_call_name resolved s =
     (if enable_nested_modules E
      then s\<lparr>module_to_resolved := AList.update current_nested_data resolved (module_to_resolved s)\<rparr>
      else s\<lparr>heap := (heap s)[r := set_resolved_entry (hget (heap s) r) module_index
                                    module_call_name resolved]\<rparr>)"

text \<open>What \<^verbatim>\<open>_load_modules\<close> hands to the module loader: a source that starts with
  \<^verbatim>\<open>./\<close> or \<^verbatim>\<open>../\<close> resolved against the directory of the referring file, and the
  version, \<^verbatim>\<open>"latest"\<close> when the call names none, a non-empty list replaced by its first
  element.\<close>

definition resolved_source :: "string \<Rightarrow> string \<Rightarrow> string" where
  "resolved_source file source0 =
     (if startswith source0 ''./'' \<or> startswith source0 ''../''
      then normpath (path_join (dirname (remove_module_dependency_in_path file)) source0)
      else source0)"

definition call_version :: "(pykey \<times> pyval) list \<Rightarrow> pyval" where
  "call_version data =
     (case map_of data (KStr ''version'') of
        None \<Rightarrow> PStr ''latest''
      | Some (PList (v # vs)) \<Rightarrow> v
      | Some v \<Rightarrow> v)"

text \<open>The arguments of the recursive directory load on the content of a module.\<close>

definition module_dl_args ::
  "module_content \<Rightarrow> (pykey \<times> pyval) list \<Rightarrow> nat \<Rightarrow> string \<Rightarrow> nested_data option \<Rightarrow> dl_args" where
  "module_dl_args content specified_vars module_index file nested_data =
     \<lparr>a_directory = mc_path content, a_specified_vars = Some specified_vars,
      a_vars_files = None, a_excluded_paths = None,
      a_nested_modules_data = Some (NestedData module_index file nested_data)\<rparr>"

text \<open>The body of the \<^verbatim>\<open>try\<close> statement for one module call. The first component is the
  exception raised inside; the handler of the caller only logs it.\<close>

definition load_module_try ::
  "descend \<Rightarrow> env \<Rightarrow> string \<Rightarrow> nested_data option \<Rightarrow> string \<Rightarrow> nat \<Rightarrow> nat \<Rightarrow> pykey
     \<Rightarrow> (pykey \<times> pyval) list \<Rightarrow> string \<Rightarrow> pyval \<Rightarrow> lm_locals \<times> pstate
     \<Rightarrow> exn option \<times> lm_locals \<times> pstate" where
  "load_module_try D E root_dir nested_data file r module_index module_call_name
                   specified_vars source version = (\<lambda>(LM, s).
     (case registry_load E root_dir source version of
        Inl e \<Rightarrow> (Some e, LM, s)
      | Inr content \<Rightarrow>
          if \<not> mc_loaded content then (None, LM, s)
          else
            (case D (module_dl_args content specified_vars module_index file nested_data) s of
               (Some e, s1) \<Rightarrow> (Some e, LM, s1)
             | (None, s1) \<Rightarrow>
                 let defs = filter (\<lambda>(path, d). dirname path = mc_path content) (out_definitions s1)
                 in if defs = [] then (None, LM, s1)
                    else
                      let current_nested_data =
                            (get_file_key_with_nested_data file nested_data, module_index, module_call_name);
                          resolved0 = read_resolved E current_nested_data r module_index module_call_name s1;
                          s2 = write_resolved E current_nested_data r module_index module_call_name resolved0 s1;
                          (ex, L, s3) = rewrite_keys E file module_index module_call_name nested_data
                                          (map fst defs)
                                          (\<lparr>module_definitions = defs, resolved_loc_list = resolved0\<rparr>, s2);
                          s4 = write_resolved E current_nested_data r module_index module_call_name
                                 (resolved_loc_list L) s3
                      in (case ex of
                            Some e \<Rightarrow> (Some e, LM, s4)
                          | None \<Rightarrow>
                              (case sort_resolved (resolved_loc_list L) of
                                 Inl e \<Rightarrow> (Some e, LM, s4)
                               | Inr sorted_list \<Rightarrow>
                                   let s5 = write_resolved E current_nested_data r module_index
                                              module_call_name sorted_list s4;
                                       (all', h') =
                                         (if all_module_definitions LM \<noteq> []
                                          then merge_definitions (all_module_definitions LM)
                                                 (module_definitions L) (heap s5)
                                          else (module_definitions L, heap s5));
                                       LM' = LM\<lparr>all_module_definitions := all'\<rparr>;
                                       s6 = s5\<lparr>heap := h'\<rparr>
                                   in if \<not> is_hashable version then (Some TypeError, LM', s6)
                                      else (None, LM',
                                            s6\<lparr>external_modules_source_map :=
                                                 (external_modules_source_map s6)
                                                   ((source, version) \<mapsto> mc_path content)\<rparr>))))))"

text \<open>One round of the loop over the items of a module block. The first component is an
  exception that leaves \<^verbatim>\<open>_load_modules\<close>: one raised outside the \<^verbatim>\<open>try\<close> statement.\<close>

definition load_module_call ::
  "descend \<Rightarrow> env \<Rightarrow> string \<Rightarrow> bool \<Rightarrow> nested_data option \<Rightarrow> string \<Rightarrow> nat \<Rightarrow> nat \<Rightarrow> pykey
     \<Rightarrow> pyval \<Rightarrow> lm_locals \<times> pstate \<Rightarrow> exn option \<times> lm_locals \<times> pstate" where
  "load_module_call D E root_dir ignore_unresolved_params nested_data file r module_index
                    module_call_name module_call_data = (\<lambda>(LM, s).
     (case module_call_data of
        PDict data \<Rightarrow>
          let current_nested_data =
                (get_file_key_with_nested_data file nested_data, module_index, module_call_name);
              s1 = (if enable_nested_modules E
                    then s\<lparr>module_to_resolved :=
                            AList.update current_nested_data
                              (case map_of (module_to_resolved s) current_nested_data of
                                 Some v \<Rightarrow> v | None \<Rightarrow> PList [])
                              (module_to_resolved s)\<rparr>
                    else s);
              module_address = (file, module_index, module_call_name)
          in if \<not> enable_nested_modules E \<and> module_address \<in> loaded_modules s1 then (None, LM, s1)
             else
               (case module_params data of
                  Inl e \<Rightarrow> (Some e, LM, s1)
                | Inr specified_vars \<Rightarrow>
                    if \<not> ignore_unresolved_params \<and> has_unresolved_params E specified_vars
                    then (None, LM\<lparr>skipped_a_module := True\<rparr>, s1)
                    else
                      let s2 = s1\<lparr>loaded_modules := insert module_address (loaded_modules s1)\<rparr>
                      in (case dict_get data (KStr ''source'') of
                            PList (PStr source0 # sources) \<Rightarrow>
                              (case load_module_try D E root_dir nested_data file r module_index
                                      module_call_name specified_vars (resolved_source file source0)
                                      (call_version data) (LM, s2) of
                                 (caught, LM', s') \<Rightarrow> (None, LM', s'))
                          | _ \<Rightarrow> (None, LM, s2)))
      | _ \<Rightarrow> (None, LM, s)))"

fun load_modules_names ::
  "descend \<Rightarrow> env \<Rightarrow> string \<Rightarrow> bool \<Rightarrow> nested_data option \<Rightarrow> string \<Rightarrow> nat \<Rightarrow> nat
     \<Rightarrow> (pykey \<times> pyval) list \<Rightarrow> lm_locals \<times> pstate \<Rightarrow> exn option \<times> lm_locals \<times> pstate" where
  "load_modules_names D E root_dir ignore nested_data file r module_index [] (LM, s) = (None, LM, s)"
| "load_modules_names D E root_dir ignore nested_data file r module_index
                      ((module_call_name, module_call_data) # items) (LM, s) =
     (case load_module_call D E root_dir ignore nested_data file r module_index
             module_call_name module_call_data (LM, s) of
        (Some e, LM', s') \<Rightarrow> (Some e, LM', s')
      | (None, LM', s') \<Rightarrow>
          load_modules_names D E root_dir ignore nested_data file r module_index items (LM', s'))"

fun load_modules_calls ::
  "descend \<Rightarrow> env \<Rightarrow> string \<Rightarrow> bool \<Rightarrow> nested_data option \<Rightarrow> string \<Rightarrow> nat
     \<Rightarrow> (nat \<times> pyval) list \<Rightarrow> lm_locals \<times> pstate \<Rightarrow> exn option \<times> lm_locals \<times> pstate" where
  "load_modules_calls D E root_dir ignore nested_data file r [] (LM, s) = (None, LM, s)"
| "load_modules_calls D E root_dir ignore nested_data file r
                      ((module_index, module_call) # module_calls) (LM, s) =
     (case module_call of
        PDict items \<Rightarrow>
          (case load_modules_names D E root_dir ignore nested_data file r module_index items (LM, s) of
             (Some e, LM', s') \<Rightarrow> (Some e, LM', s')
           | (None, LM', s') \<Rightarrow>
               load_modules_calls D E root_dir ignore nested_data file r module_calls (LM', s'))
      | _ \<Rightarrow> load_modules_calls D E root_dir ignore nested_data file r module_calls (LM, s))"

text \<open>The loop over the snapshot of the keys of the definition store.
  \<^verbatim>\<open>file_data.get\<close> needs a mapping.\<close>

fun load_modules_files ::
  "descend \<Rightarrow> env \<Rightarrow> string \<Rightarrow> bool \<Rightarrow> nested_data option
     \<Rightarrow> string list \<Rightarrow> lm_locals \<times> pstate \<Rightarrow> exn option \<times> lm_locals \<times> pstate" where
  "load_modules_files D E root_dir ignore nested_data [] (LM, s) = (None, LM, s)"
| "load_modules_files D E root_dir ignore nested_data (file # files) (LM, s) =
     (if dirname file \<noteq> root_dir \<or> endswith file '']''
      then load_modules_files D E root_dir ignore nested_data files (LM, s)
      else
        (case map_of (out_definitions s) file of
           None \<Rightarrow> load_modules_files D E root_dir ignore nested_data files (LM, s)
         | Some r \<Rightarrow>
             (case hget (heap s) r of
                PNone \<Rightarrow> load_modules_files D E root_dir ignore nested_data files (LM, s)
              | PDict file_data \<Rightarrow>
                  (case dict_get file_data (KStr ''module'') of
                     PList module_calls \<Rightarrow>
                       (case load_modules_calls D E root_dir ignore nested_data file r
                               (zip [0..<length module_calls] module_calls) (LM, s) of
                          (Some e, LM', s') \<Rightarrow> (Some e, LM', s')
                        | (None, LM', s') \<Rightarrow>
                            load_modules_files D E root_dir ignore nested_data files (LM', s'))
                   | _ \<Rightarrow> load_modules_files D E root_dir ignore nested_data files (LM, s))
              | _ \<Rightarrow> (Some AttributeError, LM, s))))"

text \<open>\<^verbatim>\<open>_load_modules\<close>: an exception, or whether a module call was skipped for its
  unresolved parameters.\<close>

definition load_modules ::
  "descend \<Rightarrow> env \<Rightarrow> string \<Rightarrow> bool \<Rightarrow> nested_data option \<Rightarrow> pstate \<Rightarrow> (exn + bool) \<times> pstate" where
  "load_modules D E root_dir ignore_unresolved_params nested_data s =
     (case load_modules_files D E root_dir ignore_unresolved_params nested_data
             (map fst (out_definitions s))
             (\<lparr>all_module_definitions = [], skipped_a_module = False\<rparr>, s) of
        (Some e, LM, s1) \<Rightarrow> (Inl e, s1)
      | (None, LM, s1) \<Rightarrow>
          if all_module_definitions LM \<noteq> []
          then (case merge_definitions (out_definitions s1) (all_module_definitions LM) (heap s1) of
                  (defs, h) \<Rightarrow> (Inr (skipped_a_module LM), s1\<lparr>out_definitions := defs, heap := h\<rparr>))
          else (Inr (skipped_a_module LM), s1))"

section \<open>Stage 4 of \<^verbatim>\<open>_internal_dir_load\<close>: the module-load loop\<close>

text \<open>
  The loop \<^verbatim>\<open>for i in range(0, 10)\<close>, given the values of \<open>i\<close> still to come. Its result
  carries the number of passes it ran. In nested mode each pass first marks the directory
  as processed (\<^verbatim>\<open>dir_filter(directory)\<close>).
\<close>

definition pass_start :: "env \<Rightarrow> dl_args \<Rightarrow> pstate \<Rightarrow> pstate" where
  "pass_start E A s =
     (if enable_nested_modules E
      then s\<lparr>parsed_directories := insert (a_directory A) (parsed_directories s)\<rparr>
      else s)"

fun module_load_loop ::
  "descend \<Rightarrow> env \<Rightarrow> dl_args \<Rightarrow> nat list \<Rightarrow> bool \<Rightarrow> pstate \<Rightarrow> exn option \<times> nat \<times> pstate" where
  "module_load_loop D E A [] force_final_module_load s = (None, 0, s)"
| "module_load_loop D E A (i # rest) force_final_module_load s =
     (case load_modules D E (a_directory A) force_final_module_load (a_nested_modules_data A)
             (pass_start E A s) of
        (Inl e, s2) \<Rightarrow> (Some e, 1, s2)
      | (Inr has_more_modules, s2) \<Rightarrow>
          if \<not> has_more_modules then (None, 1, s2)
          else (case module_load_loop D E A rest True s2 of
                  (ex, passes, s3) \<Rightarrow> (ex, Suc passes, s3)))"

definition internal_dir_load_body :: "descend \<Rightarrow> env \<Rightarrow> dl_args \<Rightarrow> pstate \<Rightarrow> exn option \<times> pstate" where
  "internal_dir_load_body D E A s =
     (case load_dir_vars E A s of
        (Inl e, s1) \<Rightarrow> (Some e, s1)
      | (Inr var_value_and_file_map, s1) \<Rightarrow>
          (case module_load_loop D E A [0..<10] False s1 of
             (ex, passes, s2) \<Rightarrow> (ex, s2)))"

text \<open>
  \<^verbatim>\<open>_internal_dir_load\<close> calls itself through \<^verbatim>\<open>_load_modules\<close>. Python bounds the depth
  of calls: going beyond the limit raises \<^verbatim>\<open>RecursionError\<close>, an \<^verbatim>\<open>Exception\<close> like any
  other. The first argument is the number of nested directory loads still allowed.
\<close>

fun internal_dir_load :: "nat \<Rightarrow> env \<Rightarrow> dl_args \<Rightarrow> pstate \<Rightarrow> exn option \<times> pstate" where
  "internal_dir_load 0 E A s = (Some RecursionError, s)"
| "internal_dir_load (Suc limit) E A s = internal_dir_load_body (internal_dir_load limit E) E A s"

section \<open>Orchestrator: \<^verbatim>\<open>Parser.parse_directory\<close>\<close>

text \<open>\<^verbatim>\<open>os.path.abspath\<close>.\<close>

definition abspath :: "env \<Rightarrow> string \<Rightarrow> string" where
  "abspath E path = normpath (path_join (cwd E) path)"

text \<open>
  The loop of \<^verbatim>\<open>_parse_directory\<close> over \<^verbatim>\<open>os.walk(self.directory)\<close>. The directories
  that \<^verbatim>\<open>os.walk\<close> yields once \<^verbatim>\<open>_filter_ignored_paths\<close> has pruned them are given by
  \<open>walk_sub_dirs\<close>; \<^verbatim>\<open>os.walk\<close> yields nothing for a directory it cannot list. The
  directory filter is \<^verbatim>\<open>_check_process_dir\<close>.
\<close>

fun walk_loop ::
  "nat \<Rightarrow> env \<Rightarrow> string list option \<Rightarrow> string list option \<Rightarrow> string list \<Rightarrow> pstate
     \<Rightarrow> exn option \<times> pstate" where
  "walk_loop limit E excluded vars_files [] s = (None, s)"
| "walk_loop limit E excluded vars_files (sub_dir # rest) s =
     (if abspath E sub_dir \<in> parsed_directories s then walk_loop limit E excluded vars_files rest s
      else
        (case internal_dir_load limit E
                \<lparr>a_directory = sub_dir, a_specified_vars = None, a_vars_files = vars_files,
                 a_excluded_paths = excluded, a_nested_modules_data = None\<rparr>
                (s\<lparr>parsed_directories := insert (abspath E sub_dir) (parsed_directories s)\<rparr>) of
           (Some e, s1) \<Rightarrow> (Some e, s1)
         | (None, s1) \<Rightarrow> walk_loop limit E excluded vars_files rest s1))"

text \<open>\<^verbatim>\<open>_remove_unused_path_recursive\<close> and \<^verbatim>\<open>_update_resolved_modules\<close>, run after the
  walk in nested mode. \<^verbatim>\<open>self.module_to_resolved[key]\<close> raises if an earlier round has
  popped the key.\<close>

fun for_each_path ::
  "(string \<Rightarrow> pstate \<Rightarrow> exn option \<times> pstate) \<Rightarrow> pyval list \<Rightarrow> pstate \<Rightarrow> exn option \<times> pstate" where
  "for_each_path R [] s = (None, s)"
| "for_each_path R (PStr path # paths) s =
     (case R path s of
        (Some e, s1) \<Rightarrow> (Some e, s1)
      | (None, s1) \<Rightarrow> for_each_path R paths s1)"
| "for_each_path R (v # paths) s = for_each_path R paths s"

fun remove_resolved_of ::
  "(string \<Rightarrow> pstate \<Rightarrow> exn option \<times> pstate) \<Rightarrow> (string \<Rightarrow> bool) \<Rightarrow> module_address list
     \<Rightarrow> pstate \<Rightarrow> exn option \<times> pstate" where
  "remove_resolved_of R selected [] s = (None, s)"
| "remove_resolved_of R selected (key # keys) s =
     (if \<not> selected (fst key) then remove_resolved_of R selected keys s
      else
        (case map_of (module_to_resolved s) key of
           None \<Rightarrow> (Some KeyError, s)
         | Some resolved \<Rightarrow>
             (case py_iter resolved of
                Inl e \<Rightarrow> (Some e, s)
              | Inr paths \<Rightarrow>
                  (case for_each_path R paths s of
                     (Some e, s1) \<Rightarrow> (Some e, s1)
                   | (None, s1) \<Rightarrow>
                       remove_resolved_of R selected keys
                         (s1\<lparr>module_to_resolved := AList.delete key (module_to_resolved s1)\<rparr>)))))"

fun remove_unused_path_recursive :: "nat \<Rightarrow> string \<Rightarrow> pstate \<Rightarrow> exn option \<times> pstate" where
  "remove_unused_path_recursive 0 path s = (Some RecursionError, s)"
| "remove_unused_path_recursive (Suc limit) path s =
     (let s1 = s\<lparr>out_definitions := AList.delete path (out_definitions s)\<rparr>
      in remove_resolved_of (remove_unused_path_recursive limit) (\<lambda>file_key. path = file_key)
           (map fst (module_to_resolved s1)) s1)"

text \<open>The assignment
  \<^verbatim>\<open>self.out_definitions[file_key]['module'][module_index][module_name]['__resolved__'] = resolved_list\<close>;
  a lookup on the way that fails raises (shown as \<^verbatim>\<open>KeyError\<close> whatever its class).\<close>

fun attach_resolved :: "(module_address \<times> pyval) list \<Rightarrow> pstate \<Rightarrow> exn option \<times> pstate" where
  "attach_resolved [] s = (None, s)"
| "attach_resolved (((file_key, module_index, module_name), resolved_list) # items) s =
     (case map_of (out_definitions s) file_key of
        None \<Rightarrow> attach_resolved items s
      | Some r \<Rightarrow>
          (case module_call_data_of (hget (heap s) r) module_index module_name of
             None \<Rightarrow> (Some KeyError, s)
           | Some module_call_data \<Rightarrow>
               attach_resolved items
                 (s\<lparr>heap := (heap s)[r := set_resolved_entry (hget (heap s) r) module_index
                                            module_name resolved_list]\<rparr>)))"

definition update_resolved_modules :: "nat \<Rightarrow> pstate \<Rightarrow> exn option \<times> pstate" where
  "update_resolved_modules limit s =
     (case remove_resolved_of (remove_unused_path_recursive limit)
             (\<lambda>file_key. file_key \<in> keys_to_remove s) (map fst (module_to_resolved s)) s of
        (Some e, s1) \<Rightarrow> (Some e, s1)
      | (None, s1) \<Rightarrow> attach_resolved (module_to_resolved s1) s1)"

text \<open>
  \<^verbatim>\<open>parse_directory\<close>, from \<^verbatim>\<open>_init\<close> to the post-pass. The caller's \<^verbatim>\<open>out_definitions\<close>
  and \<^verbatim>\<open>out_parsing_errors\<close> are those of the state passed in; \<^verbatim>\<open>_init\<close> resets the maps
  of the module resolver, and \<^verbatim>\<open>_parse_directory\<close> starts with no key referenced as a
  module. \<^verbatim>\<open>load_tf_modules\<close>, which fetches external modules beforehand, is not part of
  the loader core and is left out.
\<close>

definition parse_directory ::
  "nat \<Rightarrow> env \<Rightarrow> string \<Rightarrow> string list option \<Rightarrow> string list option \<Rightarrow> pstate
     \<Rightarrow> exn option \<times> pstate" where
  "parse_directory limit E directory excluded_paths vars_files s =
     (let s0 = s\<lparr>external_modules_source_map := Map.empty, module_address_map := Map.empty,
                 visited_definition_keys := {}, module_to_resolved := [], keys_to_remove := {},
                 parsed_directories := {}, keys_referenced_as_modules := {}\<rparr>
      in case walk_loop limit E excluded_paths vars_files (walk_sub_dirs E directory) s0 of
           (Some e, s1) \<Rightarrow> (Some e, s1)
         | (None, s1) \<Rightarrow>
             let s2 = s1\<lparr>out_definitions :=
                          filter (\<lambda>(key, r). key \<notin> keys_referenced_as_modules s1) (out_definitions s1)\<rparr>
             in if enable_nested_modules E then update_resolved_modules limit s2 else (None, s2))"

text \<open>A parser as \<^verbatim>\<open>Parser()\<close> creates it, before any directory is parsed.\<close>

definition new_parser :: pstate where
  "new_parser =
     \<lparr>heap = [], out_definitions = [], out_parsing_errors = Map.empty,
      loaded_files_map = Map.empty, loaded_modules = {}, external_variables_data = [],
      keys_referenced_as_modules = {}, module_to_resolved = [], visited_definition_keys = {},
      keys_to_remove = {}, module_address_map = Map.empty,
      external_modules_source_map = Map.empty, parsed_directories = {}\<rparr>"

section \<open>Concrete inputs\<close>

text \<open>Directory entries and environments for the scenarios evaluated below.\<close>

definition file_entry :: "string \<Rightarrow> string \<Rightarrow> dir_entry" where
  "file_entry d n = \<lparr>de_name = n, de_path = d @ ''/'' @ n, de_is_file = Inr True\<rparr>"

definition subdir_entry :: "string \<Rightarrow> string \<Rightarrow> dir_entry" where
  "subdir_entry d n = \<lparr>de_name = n, de_path = d @ ''/'' @ n, de_is_file = Inr False\<rparr>"

text \<open>
  Modelled from the spec: \<^verbatim>\<open>find_var_blocks\<close> and \<^verbatim>\<open>is_simple_var\<close> of
  \<^verbatim>\<open>checkov.common.util.parser_utils\<close> are not among the sources. The specification calls
  a value unacceptable when, as a string, it contains a Terraform-style simple variable
  reference: a \<^verbatim>\<open>${...}\<close> or a bare \<^verbatim>\<open>var.x\<close>, \<^verbatim>\<open>local.x\<close> or \<^verbatim>\<open>module.x\<close>. The
  scenarios use this reading of it.
\<close>

definition simple_var_reference :: "string \<Rightarrow> bool list" where
  "simple_var_reference s =
     (if is_substring ''${'' s \<or> startswith s ''var.'' \<or> startswith s ''local.''
         \<or> startswith s ''module.''
      then [True] else [])"

definition base_env :: env where
  "base_env =
     \<lparr>scandir = (\<lambda>d. Inl (OSError ''no such directory'')),
      json_load = (\<lambda>p. Inl (OSError ''no such file'')),
      hcl2_load = (\<lambda>p. Inl (OSError ''no such file'')),
      var_blocks_simple = simple_var_reference,
      filter_ignored_paths = (\<lambda>d entries excluded. entries),
      IGNORE_HIDDEN_DIRECTORY_ENV = True,
      registry_load = (\<lambda>root_dir source version. Inr \<lparr>mc_loaded = True, mc_path = source\<rparr>),
      env_vars = [],
      enable_nested_modules = False,
      cwd = ''/'',
      walk_sub_dirs = (\<lambda>d. [d])\<rparr>"

section \<open>The type normalizer is idempotent\<close>

lemma clean_parser_types_unfold:
  "clean_parser_types conf =
     map (\<lambda>key. (key, if key = KStr ''alias'' then dict_item conf key
                       else clean_attr_value (dict_item conf key)))
         (sort_keys (map fst conf))"
proof (cases "conf = []")
  case True
  then show ?thesis by (simp add: sort_keys_def clean_parser_types.simps)
next
  case False
  then show ?thesis
    unfolding clean_attr_value_def by (simp add: Let_def comp_def clean_parser_types.simps)
qed

lemma clean_parser_types_lst_unfold:
  "clean_parser_types_lst values =
     filter (\<lambda>val. \<not> is_str val) (map clean_element values)
       @ map PStr (sort (str_values (map clean_element values)))"
  unfolding clean_element_def by (simp add: Let_def clean_parser_types_lst.simps)

lemma str_values_append: "str_values (xs @ ys) = str_values xs @ str_values ys"
  by (induction xs rule: str_values.induct) auto

lemma str_values_no_str: "str_values (filter (\<lambda>val. \<not> is_str val) xs) = []"
  by (induction xs rule: str_values.induct) auto

lemma str_values_PStr: "str_values (map PStr ss) = ss"
  by (induction ss) auto

lemma filter_no_str_PStr: "filter (\<lambda>val. \<not> is_str val) (map PStr ss) = []"
  by (induction ss) auto

lemma str_values_set: "s \<in> set (str_values xs) \<longleftrightarrow> PStr s \<in> set xs"
  by (induction xs rule: str_values.induct) auto

lemma sort_keys_idem: "sort_keys (sort_keys ks) = sort_keys ks"
proof (cases "sort_keys ks = ks")
  case True
  then show ?thesis by simp
next
  case False
  with sort_keys_cases[of ks] have eq: "sort_keys ks = sort_key key_rank ks" by simp
  have "sorted (map key_rank (sort_key key_rank ks))" by simp
  then have "sort_key key_rank (sort_key key_rank ks) = sort_key key_rank ks"
    by (rule sort_key_id_if_sorted)
  with sort_keys_cases[of "sort_key key_rank ks"] eq show ?thesis by auto
qed

lemma clean_lst_idem:
  assumes "\<And>x. x \<in> set xs \<Longrightarrow> clean_element (clean_element x) = clean_element x"
  shows "clean_parser_types_lst (clean_parser_types_lst xs) = clean_parser_types_lst xs"
proof -
  define vs where "vs = map clean_element xs"
  define N where "N = filter (\<lambda>val. \<not> is_str val) vs"
  define S where "S = sort (str_values vs)"
  have fixed: "\<And>v. v \<in> set vs \<Longrightarrow> clean_element v = v"
    using assms by (auto simp: vs_def)
  have mN: "map clean_element N = N"
    by (rule map_idI) (auto simp: N_def fixed)
  have mS: "map clean_element (map PStr S) = map PStr S"
    by (rule map_idI) (auto simp: S_def str_values_set fixed)
  have r: "clean_parser_types_lst xs = N @ map PStr S"
    by (simp only: clean_parser_types_lst_unfold vs_def N_def S_def)
  have "clean_parser_types_lst (N @ map PStr S) = N @ map PStr S"
    unfolding clean_parser_types_lst_unfold[of "N @ map PStr S"] map_append mN mS
    by (simp add: str_values_append str_values_PStr filter_no_str_PStr)
       (simp add: N_def str_values_no_str S_def sorted_sort_id)
  with r show ?thesis by simp
qed

lemma clean_dict_idem:
  assumes "\<And>k v. (k, v) \<in> set d \<Longrightarrow> clean_attr_value (clean_attr_value v) = clean_attr_value v"
  shows "clean_parser_types (clean_parser_types d) = clean_parser_types d"
proof -
  define K where "K = sort_keys (map fst d)"
  define G where "G = (\<lambda>key. if key = KStr ''alias'' then dict_item d key
                       else clean_attr_value (dict_item d key))"
  have r: "clean_parser_types d = map (\<lambda>key. (key, G key)) K"
    by (simp only: clean_parser_types_unfold[of d] K_def G_def)
  have keys: "map fst (map (\<lambda>key. (key, G key)) K) = K"
    by (simp add: comp_def)
  have sk: "sort_keys K = K" by (simp add: K_def sort_keys_idem)
  have item: "\<And>k. k \<in> set K \<Longrightarrow> dict_item (map (\<lambda>key. (key, G key)) K) k = G k"
    by (simp add: dict_item_def map_of_map_restrict)
  have mem: "\<And>k. k \<in> set K \<Longrightarrow> (k, dict_item d k) \<in> set d"
    by (rule dict_item_in) (simp add: K_def sort_keys_set)
  have "clean_parser_types (map (\<lambda>key. (key, G key)) K) = map (\<lambda>key. (key, G key)) K"
    unfolding clean_parser_types_unfold[of "map (\<lambda>key. (key, G key)) K"] keys sk
  proof (rule map_cong[OF refl])
    fix k assume k: "k \<in> set K"
    show "(k, if k = KStr ''alias'' then dict_item (map (\<lambda>key. (key, G key)) K) k
              else clean_attr_value (dict_item (map (\<lambda>key. (key, G key)) K) k)) = (k, G k)"
      unfolding item[OF k] using assms[OF mem[OF k]] by (simp add: G_def)
  qed
  with r show ?thesis by simp
qed

lemma str_of_tree_not_bool: "true_false (str_of_tree t) = PStr (str_of_tree t)"
  by (simp add: true_false_def str_of_tree_def)

lemma clean_idem_both:
  "clean_attr_value (clean_attr_value v) = clean_attr_value v
   \<and> clean_element (clean_element v) = clean_element v"
proof (induction v)
  case (PStr s)
  show ?case by (simp add: clean_attr_value_def clean_element_def true_false_def)
next
  case (PList xs)
  then have "clean_parser_types_lst (clean_parser_types_lst xs) = clean_parser_types_lst xs"
    by (intro clean_lst_idem) simp
  then show ?case by (simp add: clean_attr_value_def clean_element_def)
next
  case (PSet xs)
  then have "clean_parser_types_lst (clean_parser_types_lst xs) = clean_parser_types_lst xs"
    by (intro clean_lst_idem) simp
  then show ?case by (simp add: clean_attr_value_def clean_element_def)
next
  case (PDict d)
  have "clean_parser_types (clean_parser_types d) = clean_parser_types d"
  proof (rule clean_dict_idem)
    fix k v assume "(k, v) \<in> set d"
    then show "clean_attr_value (clean_attr_value v) = clean_attr_value v"
      using PDict.IH[of "(k, v)" v] by simp
  qed
  then show ?case by (simp add: clean_attr_value_def clean_element_def)
next
  case (PTree t)
  show ?case
    by (simp add: clean_attr_value_def clean_element_def str_of_tree_not_bool)
qed (simp_all add: clean_attr_value_def clean_element_def)

text \<open>
  C4. Normalizing twice is the same as normalizing once: for every mapping \<open>conf\<close>,
  \<^verbatim>\<open>_clean_parser_types(_clean_parser_types(conf))\<close> equals \<^verbatim>\<open>_clean_parser_types(conf)\<close>,
  keys and their order included, and the same holds for \<^verbatim>\<open>_clean_parser_types_lst\<close> on
  every list.
\<close>

theorem normalize_idempotent:
  "clean_parser_types (clean_parser_types conf) = clean_parser_types conf
   \<and> clean_parser_types_lst (clean_parser_types_lst xs) = clean_parser_types_lst xs"
proof
  show "clean_parser_types (clean_parser_types conf) = clean_parser_types conf"
    by (rule clean_dict_idem) (simp add: clean_idem_both)
  show "clean_parser_types_lst (clean_parser_types_lst xs) = clean_parser_types_lst xs"
    by (rule clean_lst_idem) (simp add: clean_idem_both)
qed

definition sample_conf :: "(pykey \<times> pyval) list" where
  "sample_conf =
     [(KStr ''b'', PList [PStr ''z'', PInt 3, PStr ''true'', PStr ''a'',
                          PSet [PStr ''q'', PStr ''false'']]),
      (KStr ''alias'', PStr ''true''),
      (KStr ''a'', PTree ''x'')]"

lemma sample_conf_normalized:
  "clean_parser_types sample_conf =
     [(KStr ''a'', PStr ''Tree(x)''),
      (KStr ''alias'', PStr ''true''),
      (KStr ''b'', PList [PInt 3, PBool True, PList [PBool False, PStr ''q''],
                          PStr ''a'', PStr ''z''])]"
  by code_simp

theorem normalize_idempotent_witness:
  "clean_parser_types (clean_parser_types sample_conf) =
     [(KStr ''a'', PStr ''Tree(x)''),
      (KStr ''alias'', PStr ''true''),
      (KStr ''b'', PList [PInt 3, PBool True, PList [PBool False, PStr ''q''],
                          PStr ''a'', PStr ''z''])]"
  using normalize_idempotent[of sample_conf "[]"] by (simp add: sample_conf_normalized)

section \<open>Block-identifier validation\<close>

definition is_ascii :: "char \<Rightarrow> bool" where
  "is_ascii c = ((of_char c :: nat) < 128)"

lemma underscore_code: "(c = CHR ''_'') = ((of_char c :: nat) = 95)"
proof -
  have "(of_char c :: nat) = of_char (CHR ''_'') \<longleftrightarrow> c = CHR ''_''"
    by (rule of_char_eq_iff)
  then show ?thesis by simp
qed

lemma hyphen_code: "(c = CHR ''-'') = ((of_char c :: nat) = 45)"
proof -
  have "(of_char c :: nat) = of_char (CHR ''-'') \<longleftrightarrow> c = CHR ''-''"
    by (rule of_char_eq_iff)
  then show ?thesis by simp
qed

lemma ascii_word_char:
  "is_ascii c \<Longrightarrow> py_word_char c = (ascii_letter c \<or> ascii_digit c \<or> c = CHR ''_'')"
  unfolding is_ascii_def py_word_char_def ascii_letter_def ascii_digit_def underscore_code Let_def
  by arith

lemma ascii_first_char:
  "is_ascii c \<Longrightarrow> (py_word_char c \<and> \<not> ascii_digit c) = (ascii_letter c \<or> c = CHR ''_'')"
  unfolding is_ascii_def py_word_char_def ascii_letter_def ascii_digit_def underscore_code Let_def
  by arith

lemma ascii_entity_name:
  assumes "list_all is_ascii name"
  shows "entity_name_fullmatch name = identifier_grammar name"
proof (cases name)
  case Nil
  then show ?thesis by (simp add: entity_name_fullmatch_def identifier_grammar_def)
next
  case (Cons c cs)
  with assms have c: "is_ascii c" and cs: "list_all is_ascii cs" by simp_all
  have "list_all (\<lambda>d. py_word_char d \<or> d = CHR ''-'') cs
        = list_all (\<lambda>d. ascii_letter d \<or> ascii_digit d \<or> d = CHR ''_'' \<or> d = CHR ''-'') cs"
    using cs by (induction cs) (auto simp: ascii_word_char)
  with Cons ascii_first_char[OF c] show ?thesis
    by (auto simp: entity_name_fullmatch_def identifier_grammar_def)
qed

lemma filter_valid_blocks_kept:
  "filter_valid_blocks bs = Inr kept \<Longrightarrow> b \<in> set kept \<Longrightarrow> b \<in> set bs \<and> is_valid_block b = Inr True"
  by (induction bs arbitrary: kept) (auto split: sum.splits if_splits)

lemma validate_items_kept:
  "validate_items raw = Inr out \<Longrightarrow> (bt, v) \<in> set out \<Longrightarrow>
   \<exists>kept. v = PList kept \<and> (\<forall>b \<in> set kept. is_valid_block b = Inr True)"
proof (induction raw arbitrary: out)
  case Nil
  then show ?case by simp
next
  case (Cons item raw)
  obtain bt' blocks where item: "item = (bt', blocks)" by (cases item)
  from Cons.prems(1) item obtain bs kept rest where
    "py_iter blocks = Inr bs" and k: "filter_valid_blocks bs = Inr kept"
    and r: "validate_items raw = Inr rest" and out: "out = (bt', PList kept) # rest"
    by (auto split: sum.splits)
  from Cons.prems(2) out consider "(bt, v) = (bt', PList kept)" | "(bt, v) \<in> set rest" by auto
  then show ?case
  proof cases
    case 1
    then show ?thesis using filter_valid_blocks_kept[OF k] by auto
  next
    case 2
    then show ?thesis using Cons.IH[OF r] by simp
  qed
qed

lemma clean_items_kept:
  "clean_items d = Inr out \<Longrightarrow> (bt, v) \<in> set out \<Longrightarrow>
   \<exists>v0 ds kept. (bt, v0) \<in> set d \<and> py_iter v0 = Inr ds \<and> v = PList kept \<and> set kept \<subseteq> set ds"
proof (induction d arbitrary: out)
  case Nil
  then show ?case by simp
next
  case (Cons item d)
  obtain bt' dl where item: "item = (bt', dl)" by (cases item)
  from Cons.prems(1) item obtain ds rest where
    it: "py_iter dl = Inr ds" and r: "clean_items d = Inr rest"
    and out: "out = (bt', PList (filter (\<lambda>definition. bt' \<in> GOOD_BLOCK_TYPES
                                      \<or> \<not> is_dict definition \<or> py_len_is_1 definition) ds)) # rest"
    by (auto split: sum.splits)
  from Cons.prems(2) out consider
      "bt = bt'" "v = PList (filter (\<lambda>definition. bt' \<in> GOOD_BLOCK_TYPES
                                      \<or> \<not> is_dict definition \<or> py_len_is_1 definition) ds)"
    | "(bt, v) \<in> set rest" by auto
  then show ?case
  proof cases
    case 1
    then show ?thesis using it item
      by (intro exI[of _ dl] exI[of _ ds]
            exI[of _ "filter (\<lambda>definition. bt' \<in> GOOD_BLOCK_TYPES
                                      \<or> \<not> is_dict definition \<or> py_len_is_1 definition) ds"])
         auto
  next
    case 2
    from Cons.IH[OF r 2] show ?thesis by auto
  qed
qed

lemma valid_block_shape:
  "is_valid_block b = Inr True \<Longrightarrow>
     b \<noteq> PDict [] \<and>
     (\<forall>k v rest. b = PDict ((k, v) # rest) \<longrightarrow> (\<exists>name. k = KStr name \<and> entity_name_fullmatch name))"
  by (induction b rule: is_valid_block.induct) auto

lemma hcl_payload_blocks:
  assumes hcl: "\<not> endswith (basename file_path) ''.json''"
    and res: "load_or_die_quietly E file_path errs clean = (PDict payload, errs')"
    and mem: "(block_type, blocks) \<in> set payload"
  shows "\<exists>kept. blocks = PList kept \<and> (\<forall>b \<in> set kept. is_valid_block b = Inr True)"
proof -
  from hcl res obtain raw nm where
    v: "validate_malformed_definitions raw = Inr nm"
    and c: "(if clean then clean_bad_definitions nm else Inr nm) = Inr (PDict payload)"
    by (auto simp: load_or_die_quietly_def Let_def split: sum.splits if_splits)
  from v obtain rd vd where raw: "raw = PDict rd" and vi: "validate_items rd = Inr vd"
    and nm: "nm = PDict vd"
    by (cases raw) (auto split: sum.splits)
  show ?thesis
  proof (cases clean)
    case False
    with c nm have "payload = vd" by simp
    with mem validate_items_kept[OF vi] show ?thesis by blast
  next
    case True
    with c nm have ci: "clean_items vd = Inr payload" by (auto split: sum.splits)
    from clean_items_kept[OF ci mem] obtain v0 ds kept where
      a: "(block_type, v0) \<in> set vd" and b: "py_iter v0 = Inr ds"
      and k: "blocks = PList kept" and sub: "set kept \<subseteq> set ds" by blast
    from validate_items_kept[OF vi a] obtain kept0 where
      v0: "v0 = PList kept0" and ok: "\<forall>b \<in> set kept0. is_valid_block b = Inr True" by blast
    from v0 b have "ds = kept0" by simp
    with k sub ok show ?thesis by blast
  qed
qed

text \<open>
  C5 (amended). In the payload of an HCL-decoded file every block list holds no empty
  mapping, and the first top-level key of every mapping block kept is a string that fully
  matches \<^verbatim>\<open>[^\W0-9][\w-]*\<close>; for a key of ASCII characters that is the identifier
  grammar \<^verbatim>\<open>[A-Za-z_][A-Za-z0-9_-]*\<close>.
\<close>

theorem block_identifier_validation:
  assumes "\<not> endswith (basename file_path) ''.json''"
    and "load_or_die_quietly E file_path errs clean = (PDict payload, errs')"
    and "(block_type, blocks) \<in> set payload"
  shows "\<exists>kept. blocks = PList kept \<and> PDict [] \<notin> set kept \<and>
           (\<forall>k v rest. PDict ((k, v) # rest) \<in> set kept \<longrightarrow>
              (\<exists>name. k = KStr name \<and> entity_name_fullmatch name \<and>
                 (list_all is_ascii name \<longrightarrow> identifier_grammar name)))"
proof -
  from hcl_payload_blocks[OF assms] obtain kept where
    k: "blocks = PList kept" and ok: "\<forall>b \<in> set kept. is_valid_block b = Inr True" by blast
  have "PDict [] \<notin> set kept" using ok valid_block_shape by blast
  moreover have "\<forall>k v rest. PDict ((k, v) # rest) \<in> set kept \<longrightarrow>
              (\<exists>name. k = KStr name \<and> entity_name_fullmatch name \<and>
                 (list_all is_ascii name \<longrightarrow> identifier_grammar name))"
  proof (intro allI impI)
    fix k v rest assume "PDict ((k, v) # rest) \<in> set kept"
    with ok have "is_valid_block (PDict ((k, v) # rest)) = Inr True" by blast
    from valid_block_shape[OF this] obtain name where
      "k = KStr name" "entity_name_fullmatch name" by blast
    then show "\<exists>name. k = KStr name \<and> entity_name_fullmatch name \<and>
                 (list_all is_ascii name \<longrightarrow> identifier_grammar name)"
      using ascii_entity_name by auto
  qed
  ultimately show ?thesis using k by blast
qed


text \<open>
  C5 as stated fails: the pattern is matched with Unicode word characters, so a block whose
  only key is the letter e with an acute accent (code point 233), outside the ASCII grammar, is
  kept.
\<close>

definition unicode_env :: env where
  "unicode_env = base_env\<lparr>hcl2_load := (\<lambda>p.
     Inr (PDict [(KStr ''resource'',
                  PList [PDict [(KStr [CHR 0xE9], PDict [(KStr ''b'', PDict [])])]])]))\<rparr>"

theorem non_ascii_block_key_retained:
  "\<not> identifier_grammar [CHR 0xE9]
   \<and> fst (load_or_die_quietly unicode_env ''/r/main.tf'' Map.empty True)
       = PDict [(KStr ''resource'',
                 PList [PDict [(KStr [CHR 0xE9], PDict [(KStr ''b'', PDict [])])]])]"
  by code_simp

definition blocks_env :: env where
  "blocks_env = base_env\<lparr>hcl2_load := (\<lambda>p.
     Inr (PDict [(KStr ''resource'',
                  PList [PDict [(KStr ''aws_s3_bucket'', PDict [(KStr ''b'', PDict [])])],
                         PDict [],
                         PDict [(KStr ''${var.kind}'', PDict [(KStr ''c'', PDict [])])]])]))\<rparr>"

lemma blocks_env_loaded:
  "load_or_die_quietly blocks_env ''/r/main.tf'' Map.empty True
     = (PDict [(KStr ''resource'',
                PList [PDict [(KStr ''aws_s3_bucket'', PDict [(KStr ''b'', PDict [])])]])],
        Map.empty)"
  by (simp add: load_or_die_quietly_def blocks_env_def base_env_def basename_def endswith_def
        entity_name_fullmatch_def py_word_char_def ascii_digit_def GOOD_BLOCK_TYPES_def)

theorem block_identifier_validation_witness:
  "fst (load_or_die_quietly blocks_env ''/r/main.tf'' Map.empty True)
     = PDict [(KStr ''resource'',
               PList [PDict [(KStr ''aws_s3_bucket'', PDict [(KStr ''b'', PDict [])])]])]
   \<and> identifier_grammar ''aws_s3_bucket''"
proof -
  have json: "\<not> endswith (basename ''/r/main.tf'') ''.json''"
    by (simp add: basename_def endswith_def)
  have ascii: "list_all is_ascii ''aws_s3_bucket''" by (simp add: is_ascii_def)
  from block_identifier_validation[OF json blocks_env_loaded,
      of "KStr ''resource''"
         "PList [PDict [(KStr ''aws_s3_bucket'', PDict [(KStr ''b'', PDict [])])]]"]
  have "\<exists>name. KStr ''aws_s3_bucket'' = KStr name \<and> entity_name_fullmatch name \<and>
                 (list_all is_ascii name \<longrightarrow> identifier_grammar name)"
    by auto
  with ascii have "identifier_grammar ''aws_s3_bucket''" by auto
  then show ?thesis by (simp add: blocks_env_loaded)
qed



section \<open>JSON files bypass the two filters\<close>

text \<open>
  C9. For a file whose name ends in \<^verbatim>\<open>.json\<close> the parser returns what \<^verbatim>\<open>json.load\<close>
  returns, whatever the \<open>clean_definitions\<close> flag: neither filter touches it. A decode
  error is recorded under the path and the result is \<^verbatim>\<open>None\<close>.
\<close>

theorem json_decode_unfiltered:
  assumes "endswith (basename file_path) ''.json''"
  shows "load_or_die_quietly E file_path parsing_errors clean_definitions =
           (case json_load E file_path of
              Inr data \<Rightarrow> (data, parsing_errors)
            | Inl e \<Rightarrow> (PNone, parsing_errors(file_path \<mapsto> e)))"
  using assms by (simp add: load_or_die_quietly_def Let_def)

definition malformed_payload :: pyval where
  "malformed_payload =
     PDict [(KStr ''resource'',
             PList [PDict [],
                    PDict [(KStr ''${var.kind}'', PDict [(KStr ''c'', PDict [])])],
                    PDict [(KStr ''a'', PDict []), (KStr ''b'', PDict [])]])]"

definition json_env :: env where
  "json_env = base_env\<lparr>json_load := (\<lambda>p. Inr malformed_payload),
                         hcl2_load := (\<lambda>p. Inr malformed_payload)\<rparr>"

theorem json_decode_unfiltered_witness:
  "fst (load_or_die_quietly json_env ''/r/main.tf.json'' Map.empty True) = malformed_payload
   \<and> fst (load_or_die_quietly json_env ''/r/main.tf'' Map.empty True)
       = PDict [(KStr ''resource'', PList [])]"
proof -
  have json: "endswith (basename ''/r/main.tf.json'') ''.json''"
    by (simp add: basename_def endswith_def)
  have "fst (load_or_die_quietly json_env ''/r/main.tf.json'' Map.empty True) = malformed_payload"
    unfolding json_decode_unfiltered[OF json] by (simp add: json_env_def)
  moreover have "fst (load_or_die_quietly json_env ''/r/main.tf'' Map.empty True)
       = PDict [(KStr ''resource'', PList [])]"
    by (simp add: load_or_die_quietly_def json_env_def malformed_payload_def basename_def
          endswith_def entity_name_fullmatch_def py_word_char_def ascii_digit_def
          GOOD_BLOCK_TYPES_def)
  ultimately show ?thesis by simp
qed


section \<open>Parameters without strings pass the gate\<close>








lemma load_module_try_skipped:
  "load_module_try D E root_dir nd file r idx name sv source version (LM, s) = (ex, LM', s')
   \<Longrightarrow> skipped_a_module LM' = skipped_a_module LM"
  by (auto simp: load_module_try_def Let_def split: sum.splits if_splits option.splits prod.splits)





definition no_locals :: lm_locals where
  "no_locals = \<lparr>all_module_definitions = [], skipped_a_module = False\<rparr>"


section \<open>Which files a directory load discovers\<close>

text \<open>The condition under which the loop over \<^verbatim>\<open>dir_contents\<close> appends an entry to
  \<^verbatim>\<open>tf_files_to_load\<close>: a regular file that is no variable file and whose name ends in
  \<^verbatim>\<open>.tf\<close> or \<^verbatim>\<open>.hcl\<close>.\<close>

definition is_resource_file :: "string list option \<Rightarrow> dir_entry \<Rightarrow> bool" where
  "is_resource_file vars_files file =
     (de_is_file file = Inr True
      \<and> de_name file \<noteq> ''terraform.tfvars.json'' \<and> de_name file \<noteq> ''terraform.tfvars''
      \<and> \<not> endswith (de_name file) ''.auto.tfvars.json'' \<and> \<not> endswith (de_name file) ''.auto.tfvars''
      \<and> \<not> (case vars_files of None \<Rightarrow> False | Some vf \<Rightarrow> vf \<noteq> [] \<and> de_path file \<in> set vf)
      \<and> (endswith (de_name file) ''.tf'' \<or> endswith (de_name file) ''.hcl''))"

text \<open>\<^verbatim>\<open>dir_contents\<close> once the ignored paths are filtered out.\<close>

definition dir_contents_of :: "env \<Rightarrow> dl_args \<Rightarrow> dir_entry list \<Rightarrow> dir_entry list" where
  "dir_contents_of E A listing =
     (if (case a_excluded_paths A of None \<Rightarrow> False | Some ex \<Rightarrow> ex \<noteq> [])
         \<or> IGNORE_HIDDEN_DIRECTORY_ENV E
      then filter_ignored_paths E (a_directory A) listing (a_excluded_paths A)
      else listing)"

text \<open>The payload \<^verbatim>\<open>_load_files\<close> yields for a file: the cached one if it is non-empty,
  the freshly parsed one otherwise.\<close>

definition file_payload :: "env \<Rightarrow> pstate \<Rightarrow> dir_entry \<Rightarrow> pyval" where
  "file_payload E s file =
     (case cached_data s file of
        Some r \<Rightarrow> hget (heap s) r
      | None \<Rightarrow> fst (load_or_die_quietly E (de_path file) Map.empty True))"

lemma classify_fold_tf_files:
  "tf_files_to_load (fold (classify_file vf) cs F) = tf_files_to_load F @ filter (is_resource_file vf) cs"
proof (induction cs arbitrary: F)
  case Nil
  then show ?case by simp
next
  case (Cons c cs)
  have "tf_files_to_load (classify_file vf c F)
        = tf_files_to_load F @ (if is_resource_file vf c then [c] else [])"
    by (auto simp: classify_file_def is_resource_file_def split: sum.splits bool.splits option.splits)
  then show ?case using Cons.IH[of "classify_file vf c F"] by simp
qed

lemma classify_files_tf_files:
  "tf_files_to_load (classify_files vf cs) = filter (is_resource_file vf) cs"
  by (simp add: classify_files_def classify_fold_tf_files no_files_def)

lemma dir_files_tf_files:
  "scandir E (a_directory A) = Inr listing \<Longrightarrow>
   \<exists>F. dir_files E A = Inr F
       \<and> tf_files_to_load F = filter (is_resource_file (a_vars_files A)) (dir_contents_of E A listing)"
  by (simp add: dir_files_def dir_contents_of_def classify_files_tf_files Let_def)

lemma endswith_iff: "endswith s p \<longleftrightarrow> (\<exists>pre. s = pre @ p)"
proof
  assume "endswith s p"
  then have "s = take (length s - length p) s @ p"
    by (metis append_take_drop_id endswith_def)
  then show "\<exists>pre. s = pre @ p" ..
next
  assume "\<exists>pre. s = pre @ p"
  then show "endswith s p" by (auto simp: endswith_def)
qed

lemma tf_json_not_resource:
  assumes "endswith (de_name file) ''.tf.json''"
  shows "\<not> is_resource_file vf file"
proof -
  from assms obtain pre where n: "de_name file = pre @ ''.tf.json''" by (auto simp: endswith_iff)
  have "\<not> endswith (de_name file) ''.tf''"
  proof
    assume "endswith (de_name file) ''.tf''"
    then obtain q where "de_name file = q @ ''.tf''" by (auto simp: endswith_iff)
    with n have "last (pre @ ''.tf.json'') = last (q @ ''.tf'')" by simp
    then show False by simp
  qed
  moreover have "\<not> endswith (de_name file) ''.hcl''"
  proof
    assume "endswith (de_name file) ''.hcl''"
    then obtain q where "de_name file = q @ ''.hcl''" by (auto simp: endswith_iff)
    with n have "last (pre @ ''.tf.json'') = last (q @ ''.hcl'')" by simp
    then show False by simp
  qed
  ultimately show ?thesis by (simp add: is_resource_file_def)
qed

lemma hget_append: "r < length h \<Longrightarrow> hget (h @ new) r = hget h r"
  by (simp add: hget_def nth_append)

lemma hget_truthy_in_range: "truthy (hget h r) \<Longrightarrow> r < length h"
  by (cases "r < length h") (simp_all add: hget_def)

lemma load_files_parse_result:
  "load_files_parse E files (ftd, s) = (ftd', s') \<Longrightarrow>
     out_definitions s' = out_definitions s
     \<and> (\<exists>new. heap s' = heap s @ new)
     \<and> set ftd \<subseteq> set ftd'
     \<and> fst ` set ftd' \<subseteq> fst ` set ftd \<union> de_path ` set files
     \<and> (\<forall>f \<in> set files. \<exists>r. (de_path f, r) \<in> set ftd' \<and> r < length (heap s')
            \<and> hget (heap s') r = fst (load_or_die_quietly E (de_path f) Map.empty True))"
proof (induction files arbitrary: ftd s)
  case Nil
  then show ?case by simp
next
  case (Cons fl files)
  obtain result parsing_errors where
    lq: "load_or_die_quietly E (de_path fl) Map.empty True = (result, parsing_errors)"
    by (cases "load_or_die_quietly E (de_path fl) Map.empty True")
  define r where "r = length (heap s)"
  define s1 where "s1 = s\<lparr>heap := heap s @ [result],
                 out_parsing_errors := out_parsing_errors s ++ parsing_errors\<rparr>"
  define s2 where "s2 = (if loaded_files_map s1 (de_path fl) = None
                then s1\<lparr>loaded_files_map := (loaded_files_map s1)(de_path fl \<mapsto> r)\<rparr>
                else s1)"
  from Cons.prems lq have rec: "load_files_parse E files (ftd @ [(de_path fl, r)], s2) = (ftd', s')"
    by (auto simp: Let_def r_def s1_def s2_def split: if_splits)
  have h2: "heap s2 = heap s @ [result]" and o2: "out_definitions s2 = out_definitions s"
    by (simp_all add: s2_def s1_def)
  from Cons.IH[OF rec] obtain new where
    o: "out_definitions s' = out_definitions s2"
    and h: "heap s' = heap s2 @ new"
    and sub: "set (ftd @ [(de_path fl, r)]) \<subseteq> set ftd'"
    and keys: "fst ` set ftd' \<subseteq> fst ` set (ftd @ [(de_path fl, r)]) \<union> de_path ` set files"
    and rest: "\<forall>f \<in> set files. \<exists>r. (de_path f, r) \<in> set ftd' \<and> r < length (heap s')
            \<and> hget (heap s') r = fst (load_or_die_quietly E (de_path f) Map.empty True)"
    by blast
  have "hget (heap s') r = result"
    using h h2 by (simp add: hget_def r_def nth_append)
  moreover have "r < length (heap s')" using h h2 by (simp add: r_def)
  moreover have "(de_path fl, r) \<in> set ftd'" using sub by simp
  ultimately have head: "\<exists>r. (de_path fl, r) \<in> set ftd' \<and> r < length (heap s')
            \<and> hget (heap s') r = fst (load_or_die_quietly E (de_path fl) Map.empty True)"
    using lq by auto
  show ?case
  proof (intro conjI)
    show "out_definitions s' = out_definitions s" using o o2 by simp
    show "\<exists>new. heap s' = heap s @ new" using h h2 by simp
    show "set ftd \<subseteq> set ftd'" using sub by simp
    show "fst ` set ftd' \<subseteq> fst ` set ftd \<union> de_path ` set (fl # files)" using keys by auto
    show "\<forall>f \<in> set (fl # files). \<exists>r. (de_path f, r) \<in> set ftd' \<and> r < length (heap s')
            \<and> hget (heap s') r = fst (load_or_die_quietly E (de_path f) Map.empty True)"
      using head rest by simp
  qed
qed

lemma load_files_result:
  assumes "load_files E files s = (ftd, s')"
  shows "out_definitions s' = out_definitions s"
    and "\<exists>new. heap s' = heap s @ new"
    and "fst ` set ftd \<subseteq> de_path ` set files"
    and "\<forall>f \<in> set files. \<exists>r. (de_path f, r) \<in> set ftd \<and> hget (heap s') r = file_payload E s f"
proof -
  define cached where "cached = concat (map (\<lambda>fl. case cached_data s fl of
                                                None \<Rightarrow> [] | Some r \<Rightarrow> [(de_path fl, r)]) files)"
  define to_parse where "to_parse = filter (\<lambda>fl. cached_data s fl = None) files"
  from assms have lp: "load_files_parse E to_parse (cached, s) = (ftd, s')"
    by (simp add: load_files_def cached_def to_parse_def)
  from load_files_parse_result[OF lp] obtain new where
    o: "out_definitions s' = out_definitions s"
    and h: "heap s' = heap s @ new"
    and sub: "set cached \<subseteq> set ftd"
    and keys: "fst ` set ftd \<subseteq> fst ` set cached \<union> de_path ` set to_parse"
    and parsed: "\<forall>f \<in> set to_parse. \<exists>r. (de_path f, r) \<in> set ftd \<and> r < length (heap s')
            \<and> hget (heap s') r = fst (load_or_die_quietly E (de_path f) Map.empty True)"
    by blast
  show "out_definitions s' = out_definitions s" by (rule o)
  show "\<exists>new. heap s' = heap s @ new" using h by blast
  have ck: "fst ` set cached \<subseteq> de_path ` set files"
    by (auto simp: cached_def split: option.splits)
  show "fst ` set ftd \<subseteq> de_path ` set files"
  proof -
    have "de_path ` set to_parse \<subseteq> de_path ` set files" by (auto simp: to_parse_def)
    with keys ck show ?thesis by blast
  qed
  show "\<forall>f \<in> set files. \<exists>r. (de_path f, r) \<in> set ftd \<and> hget (heap s') r = file_payload E s f"
  proof
    fix f assume f: "f \<in> set files"
    show "\<exists>r. (de_path f, r) \<in> set ftd \<and> hget (heap s') r = file_payload E s f"
    proof (cases "cached_data s f")
      case None
      with f have "f \<in> set to_parse" by (simp add: to_parse_def)
      with parsed None show ?thesis by (auto simp: file_payload_def)
    next
      case (Some r)
      with f have "(de_path f, r) \<in> set cached" by (force simp: cached_def)
      with sub have m: "(de_path f, r) \<in> set ftd" by blast
      from Some have "truthy (hget (heap s) r)"
        by (auto simp: cached_data_def split: option.splits if_splits)
      then have "r < length (heap s)" by (rule hget_truthy_in_range)
      with h have "hget (heap s') r = hget (heap s) r" by (simp add: hget_append)
      with m Some show ?thesis by (auto simp: file_payload_def)
    qed
  qed
qed

lemma update_keys: "fst ` set (AList.update k v al) = insert k (fst ` set al)"
  by (simp add: dom_update)

lemma store_files_result:
  "store_files xs (vm, s) = (res, s') \<Longrightarrow>
     heap s' = heap s
     \<and> fst ` set (out_definitions s) \<subseteq> fst ` set (out_definitions s')
     \<and> fst ` set (out_definitions s') \<subseteq> fst ` set (out_definitions s) \<union> fst ` set xs
     \<and> ((\<exists>vm'. res = Inr vm') \<longrightarrow>
          (\<forall>(p, r) \<in> set xs. truthy (hget (heap s) r) \<longrightarrow> p \<in> fst ` set (out_definitions s')))"
proof (induction xs arbitrary: vm s)
  case Nil
  then show ?case by simp
next
  case (Cons x xs)
  obtain fl r where x: "x = (fl, r)" by (cases x)
  show ?case
  proof (cases "truthy (hget (heap s) r)")
    case False
    with Cons.prems x have "store_files xs (vm, s) = (res, s')" by (simp add: Let_def)
    from Cons.IH[OF this] False x show ?thesis by auto
  next
    case True
    define s1 where "s1 = s\<lparr>out_definitions := AList.update fl r (out_definitions s)\<rparr>"
    have k1: "fst ` set (out_definitions s1) = insert fl (fst ` set (out_definitions s))"
      by (simp add: s1_def update_keys)
    have h1: "heap s1 = heap s" by (simp add: s1_def)
    consider (fail) "res = Inl AttributeError \<or> (\<exists>e. res = Inl e)" "s' = s1"
      | (go) vm1 s1' where "store_files xs (vm1, s1') = (res, s')" "heap s1' = heap s1"
          "out_definitions s1' = out_definitions s1"
      using Cons.prems x True
      by (auto simp: Let_def s1_def split: pyval.splits sum.splits prod.splits)
    then show ?thesis
    proof cases
      case fail
      then show ?thesis using k1 h1 x by auto
    next
      case go
      from Cons.IH[OF go(1)] go(2,3) k1 h1 x True show ?thesis by auto
    qed
  qed
qed


lemma bind_vars_defs:
  "bind_vars items origin (vm, s) = (vm', s') \<Longrightarrow> out_definitions s' = out_definitions s \<and> heap s' = heap s"
  by (auto simp: bind_vars_def)

lemma bind_env_vars_defs:
  "bind_env_vars vars (vm, s) = (vm', s') \<Longrightarrow> out_definitions s' = out_definitions s"
  by (induction vars arbitrary: vm s) (auto split: if_splits)

lemma bind_var_files_defs:
  "bind_var_files xs (vm, s) = (res, s') \<Longrightarrow> out_definitions s' = out_definitions s"
proof (induction xs arbitrary: vm s)
  case Nil
  then show ?case by simp
next
  case (Cons x xs)
  obtain var_file r where x: "x = (var_file, r)" by (cases x)
  show ?case
  proof (cases "truthy (hget (heap s) r)")
    case False
    with Cons x show ?thesis by (simp add: Let_def)
  next
    case True
    show ?thesis
    proof (cases "py_items (hget (heap s) r)")
      case (Inl e)
      with Cons.prems x True show ?thesis by (simp add: Let_def)
    next
      case (Inr items)
      obtain vm1 s1 where b: "bind_vars items var_file (vm, s) = (vm1, s1)"
        by (cases "bind_vars items var_file (vm, s)")
      with Cons.prems x True Inr have "bind_var_files xs (vm1, s1) = (res, s')"
        by (simp add: Let_def)
      from Cons.IH[OF this] bind_vars_defs[OF b] show ?thesis by simp
    qed
  qed
qed

definition keeps_definitions :: "(var_map \<times> pstate \<Rightarrow> (exn + var_map) \<times> pstate) \<Rightarrow> bool" where
  "keeps_definitions f = (\<forall>vm s res s'. f (vm, s) = (res, s') \<longrightarrow> out_definitions s' = out_definitions s)"

lemma step_env_keeps: "keeps_definitions (step_env E)"
  by (auto simp: keeps_definitions_def step_env_def split: prod.splits dest: bind_env_vars_defs)

lemma step_hcl_tfvars_keeps: "keeps_definitions (step_hcl_tfvars E F)"
  by (auto simp: keeps_definitions_def step_hcl_tfvars_def Let_def
        split: option.splits prod.splits if_splits sum.splits dest!: bind_vars_defs)

lemma step_json_tfvars_keeps: "keeps_definitions (step_json_tfvars E F)"
  by (auto simp: keeps_definitions_def step_json_tfvars_def Let_def
        split: option.splits prod.splits if_splits sum.splits dest!: bind_vars_defs)

lemma step_auto_vars_keeps: "keeps_definitions (step_auto_vars E F)"
  unfolding keeps_definitions_def step_auto_vars_def
  by (auto simp: Let_def split: prod.splits dest!: bind_var_files_defs load_files_result(1))

lemma step_explicit_vars_keeps: "keeps_definitions (step_explicit_vars E vf F)"
  unfolding keeps_definitions_def step_explicit_vars_def
  by (auto simp: Let_def split: prod.splits dest!: bind_var_files_defs load_files_result(1))

lemma step_specified_keeps: "keeps_definitions (step_specified sv)"
  by (auto simp: keeps_definitions_def step_specified_def
        split: option.splits prod.splits dest!: bind_vars_defs)

lemma then_step_keeps:
  assumes "keeps_definitions f" and "then_step x f = (res, s')"
  shows "out_definitions s' = out_definitions (snd x)"
    and "(\<exists>vm. res = Inr vm) \<Longrightarrow> (\<exists>vm. fst x = Inr vm)"
proof -
  obtain r0 s0 where x: "x = (r0, s0)" by (cases x)
  show "out_definitions s' = out_definitions (snd x)"
    using assms x by (cases r0) (auto simp: keeps_definitions_def)
  show "(\<exists>vm. res = Inr vm) \<Longrightarrow> (\<exists>vm. fst x = Inr vm)"
    using assms x by (cases r0) auto
qed

lemma load_dir_vars_after_defaults:
  assumes "dir_files E A = Inr F" and "load_dir_vars E A s = (res, s')"
  shows "out_definitions s' = out_definitions (snd (step_defaults E F s))"
    and "(\<exists>vm. res = Inr vm) \<Longrightarrow> (\<exists>vm. fst (step_defaults E F s) = Inr vm)"
proof -
  define x1 where "x1 = then_step (step_defaults E F s) (step_env E)"
  define x2 where "x2 = then_step x1 (step_hcl_tfvars E F)"
  define x3 where "x3 = then_step x2 (step_json_tfvars E F)"
  define x4 where "x4 = then_step x3 (step_auto_vars E F)"
  define x5 where "x5 = then_step x4 (step_explicit_vars E (a_vars_files A) F)"
  from assms have x6: "then_step x5 (step_specified (a_specified_vars A)) = (res, s')"
    by (simp add: load_dir_vars_def x1_def x2_def x3_def x4_def x5_def)
  have p1: "x1 = (fst x1, snd x1)" and p2: "x2 = (fst x2, snd x2)" and p3: "x3 = (fst x3, snd x3)"
    and p4: "x4 = (fst x4, snd x4)" and p5: "x5 = (fst x5, snd x5)" by simp_all
  note k6 = then_step_keeps[OF step_specified_keeps x6]
  note k5 = then_step_keeps[OF step_explicit_vars_keeps, of x4 E "a_vars_files A" F "fst x5" "snd x5"]
  note k4 = then_step_keeps[OF step_auto_vars_keeps, of x3 E F "fst x4" "snd x4"]
  note k3 = then_step_keeps[OF step_json_tfvars_keeps, of x2 E F "fst x3" "snd x3"]
  note k2 = then_step_keeps[OF step_hcl_tfvars_keeps, of x1 E F "fst x2" "snd x2"]
  note k1 = then_step_keeps[OF step_env_keeps, of "step_defaults E F s" E "fst x1" "snd x1"]
  show "out_definitions s' = out_definitions (snd (step_defaults E F s))"
    using k6(1) k5(1) k4(1) k3(1) k2(1) k1(1)
    by (simp add: x1_def[symmetric] x2_def[symmetric] x3_def[symmetric] x4_def[symmetric] x5_def[symmetric])
  show "(\<exists>vm. res = Inr vm) \<Longrightarrow> (\<exists>vm. fst (step_defaults E F s) = Inr vm)"
    using k6(2) k5(2) k4(2) k3(2) k2(2) k1(2)
    by (simp add: x1_def[symmetric] x2_def[symmetric] x3_def[symmetric] x4_def[symmetric] x5_def[symmetric])
qed

lemma step_defaults_result:
  assumes "step_defaults E F s = (res, s1)"
  shows "fst ` set (out_definitions s1)
           \<subseteq> fst ` set (out_definitions s) \<union> de_path ` set (tf_files_to_load F)"
    and "(\<exists>vm. res = Inr vm) \<Longrightarrow> f \<in> set (tf_files_to_load F) \<Longrightarrow> truthy (file_payload E s f)
           \<Longrightarrow> de_path f \<in> fst ` set (out_definitions s1)"
proof -
  obtain ftd s0 where lf: "load_files E (tf_files_to_load F) s = (ftd, s0)"
    by (cases "load_files E (tf_files_to_load F) s")
  with assms have st: "store_files (sort_key fst ftd) (Map.empty, s0) = (res, s1)"
    by (simp add: step_defaults_def)
  note L = load_files_result[OF lf]
  note S = store_files_result[OF st]
  have k: "fst ` set (out_definitions s1) \<subseteq> fst ` set (out_definitions s0) \<union> fst ` set ftd"
    using S by simp
  show "fst ` set (out_definitions s1)
           \<subseteq> fst ` set (out_definitions s) \<union> de_path ` set (tf_files_to_load F)"
    using k L(1) L(3) by (simp only:) blast
  show "de_path f \<in> fst ` set (out_definitions s1)"
    if ok: "\<exists>vm. res = Inr vm" and f: "f \<in> set (tf_files_to_load F)"
      and t: "truthy (file_payload E s f)"
  proof -
    from L(4) f obtain r where m: "(de_path f, r) \<in> set ftd"
      and p: "hget (heap s0) r = file_payload E s f" by blast
    from m have "(de_path f, r) \<in> set (sort_key fst ftd)" by simp
    with S ok p t show ?thesis by auto
  qed
qed

text \<open>
  C3 (amended). Stages 1 and 2 of a directory load (file discovery and loading) work on the
  listing of the directory once the ignored paths are filtered out. Among its entries they
  discover the regular files whose names end in \<^verbatim>\<open>.tf\<close> or \<^verbatim>\<open>.hcl\<close> and that are not
  variable files: these stages add no other path to the definition store, and they add the
  path of each such file with a non-empty payload when they end without an exception. An
  entry whose name ends in \<^verbatim>\<open>.tf.json\<close> is not among the files discovered.
\<close>

theorem directory_load_discovery:
  assumes "scandir E (a_directory A) = Inr listing"
    and "load_dir_vars E A s = (result, s')"
  shows "(\<forall>f \<in> set (dir_contents_of E A listing).
            endswith (de_name f) ''.tf.json'' \<longrightarrow> \<not> is_resource_file (a_vars_files A) f)
       \<and> fst ` set (out_definitions s')
            \<subseteq> fst ` set (out_definitions s)
              \<union> de_path ` {f \<in> set (dir_contents_of E A listing). is_resource_file (a_vars_files A) f}
       \<and> ((\<exists>vm. result = Inr vm) \<longrightarrow>
            (\<forall>f \<in> set (dir_contents_of E A listing).
               is_resource_file (a_vars_files A) f \<and> truthy (file_payload E s f)
               \<longrightarrow> de_path f \<in> fst ` set (out_definitions s')))"
proof -
  from dir_files_tf_files[OF assms(1)] obtain F where
    F: "dir_files E A = Inr F"
    and tf: "tf_files_to_load F
               = filter (is_resource_file (a_vars_files A)) (dir_contents_of E A listing)"
    by blast
  obtain res1 s1 where sd: "step_defaults E F s = (res1, s1)"
    by (cases "step_defaults E F s")
  note A1 = load_dir_vars_after_defaults[OF F assms(2)]
  note D = step_defaults_result[OF sd]
  have eq: "out_definitions s' = out_definitions s1" using A1(1) sd by simp
  have a: "\<forall>f \<in> set (dir_contents_of E A listing).
            endswith (de_name f) ''.tf.json'' \<longrightarrow> \<not> is_resource_file (a_vars_files A) f"
    using tf_json_not_resource by blast
  have b: "fst ` set (out_definitions s')
            \<subseteq> fst ` set (out_definitions s)
              \<union> de_path ` {f \<in> set (dir_contents_of E A listing). is_resource_file (a_vars_files A) f}"
    using D(1) eq tf by auto
  have c: "(\<exists>vm. result = Inr vm) \<longrightarrow>
            (\<forall>f \<in> set (dir_contents_of E A listing).
               is_resource_file (a_vars_files A) f \<and> truthy (file_payload E s f)
               \<longrightarrow> de_path f \<in> fst ` set (out_definitions s'))"
  proof (intro impI ballI)
    fix f
    assume ok: "\<exists>vm. result = Inr vm" and f: "f \<in> set (dir_contents_of E A listing)"
      and rf: "is_resource_file (a_vars_files A) f \<and> truthy (file_payload E s f)"
    from A1(2)[OF ok] sd have "\<exists>vm. res1 = Inr vm" by simp
    moreover from f rf tf have "f \<in> set (tf_files_to_load F)" by simp
    ultimately show "de_path f \<in> fst ` set (out_definitions s')"
      using D(2) rf eq by simp
  qed
  from a b c show ?thesis by blast
qed


text \<open>
  C3 as stated fails: a directory with \<^verbatim>\<open>main.tf\<close> and \<^verbatim>\<open>extra.tf.json\<close>, both holding
  one resource. The JSON file decodes, yet parsing the directory leaves only
  \<^verbatim>\<open>/r/main.tf\<close> in the definition store.
\<close>

definition root_args :: dl_args where
  "root_args = \<lparr>a_directory = ''/r'', a_specified_vars = None, a_vars_files = None,
                a_excluded_paths = None, a_nested_modules_data = None\<rparr>"

definition tf_json_env :: env where
  "tf_json_env = base_env
     \<lparr>scandir := (\<lambda>d. if d = ''/r''
                       then Inr [file_entry ''/r'' ''extra.tf.json'', file_entry ''/r'' ''main.tf'']
                       else Inl (OSError ''no such directory'')),
      json_load := (\<lambda>p.
        if p = ''/r/extra.tf.json''
        then Inr (PDict [(KStr ''resource'',
                          PDict [(KStr ''aws_s3_bucket'', PDict [(KStr ''j'', PDict [])])])])
        else Inl (OSError ''no such file'')),
      hcl2_load := (\<lambda>p.
        if p = ''/r/main.tf''
        then Inr (PDict [(KStr ''resource'',
                          PList [PDict [(KStr ''aws_s3_bucket'', PDict [(KStr ''b'', PDict [])])]])])
        else Inl (OSError ''not HCL''))\<rparr>"

theorem tf_json_not_discovered:
  "truthy (fst (load_or_die_quietly tf_json_env ''/r/extra.tf.json'' Map.empty True))
   \<and> fst (parse_directory 3 tf_json_env ''/r'' None None new_parser) = None
   \<and> map fst (out_definitions (snd (parse_directory 3 tf_json_env ''/r'' None None new_parser)))
       = [''/r/main.tf'']"
  by code_simp

theorem directory_load_discovery_witness:
  "''/r/extra.tf.json'' \<notin> fst ` set (out_definitions (snd (load_dir_vars tf_json_env root_args new_parser)))
   \<and> ''/r/main.tf'' \<in> fst ` set (out_definitions (snd (load_dir_vars tf_json_env root_args new_parser)))"
proof -
  define listing where
    "listing = [file_entry ''/r'' ''extra.tf.json'', file_entry ''/r'' ''main.tf'']"
  have sc: "scandir tf_json_env (a_directory root_args) = Inr listing"
    by (simp add: tf_json_env_def base_env_def root_args_def listing_def)
  have dc: "dir_contents_of tf_json_env root_args listing = listing"
    by (simp add: dir_contents_of_def tf_json_env_def base_env_def root_args_def)
  have ok: "\<not> isl (fst (load_dir_vars tf_json_env root_args new_parser))" by code_simp
  have main: "is_resource_file None (file_entry ''/r'' ''main.tf'')" by code_simp
  have extra: "\<not> is_resource_file None (file_entry ''/r'' ''extra.tf.json'')" by code_simp
  have pay: "truthy (file_payload tf_json_env new_parser (file_entry ''/r'' ''main.tf''))"
    by code_simp
  have paths: "de_path (file_entry ''/r'' ''main.tf'') = ''/r/main.tf''"
    "de_path (file_entry ''/r'' ''extra.tf.json'') = ''/r/extra.tf.json''"
    by (simp_all add: file_entry_def)
  have none: "out_definitions new_parser = []" by (simp add: new_parser_def)
  have vf: "a_vars_files root_args = None" by (simp add: root_args_def)
  obtain result s' where l: "load_dir_vars tf_json_env root_args new_parser = (result, s')"
    by (cases "load_dir_vars tf_json_env root_args new_parser")
  from ok l obtain vm where r: "result = Inr vm" by (cases result) auto
  from directory_load_discovery[OF sc l]
  have sub: "fst ` set (out_definitions s')
            \<subseteq> de_path ` {f \<in> set listing. is_resource_file None f}"
    and add: "\<forall>f \<in> set listing.
               is_resource_file None f \<and> truthy (file_payload tf_json_env new_parser f)
               \<longrightarrow> de_path f \<in> fst ` set (out_definitions s')"
    using r by (simp_all add: dc none vf)
  from sub extra main paths have "''/r/extra.tf.json'' \<notin> fst ` set (out_definitions s')"
    by (auto simp: listing_def)
  moreover from add main pay paths have "''/r/main.tf'' \<in> fst ` set (out_definitions s')"
    by (auto simp: listing_def)
  ultimately show ?thesis using l by simp
qed


section \<open>Variable precedence at the tfvars scenario\<close>

text \<open>
  The scenario of the specification: \<^verbatim>\<open>variable "v" { default = "d" }\<close> in \<^verbatim>\<open>main.tf\<close>,
  \<^verbatim>\<open>terraform.tfvars\<close> and \<^verbatim>\<open>a.auto.tfvars\<close> setting \<^verbatim>\<open>v\<close> to \<^verbatim>\<open>"t"\<close> and \<^verbatim>\<open>"a"\<close>,
  and \<^verbatim>\<open>TF_VAR_v=e\<close> in the environment. The HCL decoder wraps each attribute value in a
  one-element list.
\<close>

definition tfvars_env :: env where
  "tfvars_env = base_env
     \<lparr>scandir := (\<lambda>d. if d = ''/r''
                       then Inr [file_entry ''/r'' ''a.auto.tfvars'', file_entry ''/r'' ''main.tf'',
                                 file_entry ''/r'' ''terraform.tfvars'']
                       else Inl (OSError ''no such directory'')),
      hcl2_load := (\<lambda>p.
        if p = ''/r/main.tf''
        then Inr (PDict [(KStr ''variable'',
                          PList [PDict [(KStr ''v'', PDict [(KStr ''default'', PList [PStr ''d''])])]])])
        else if p = ''/r/terraform.tfvars'' then Inr (PDict [(KStr ''v'', PList [PStr ''t''])])
        else if p = ''/r/a.auto.tfvars'' then Inr (PDict [(KStr ''v'', PList [PStr ''a''])])
        else Inl (OSError ''no such file'')),
      env_vars := [(''TF_VAR_v'', ''e'')]\<rparr>"

text \<open>The same directory without \<^verbatim>\<open>a.auto.tfvars\<close>.\<close>

definition tfvars_only_env :: env where
  "tfvars_only_env = tfvars_env
     \<lparr>scandir := (\<lambda>d. if d = ''/r''
                       then Inr [file_entry ''/r'' ''main.tf'', file_entry ''/r'' ''terraform.tfvars'']
                       else Inl (OSError ''no such directory''))\<rparr>"

definition binding_of :: "(exn + var_map) \<times> pstate \<Rightarrow> pykey \<Rightarrow> (pyval \<times> string) option" where
  "binding_of result name = (case fst result of Inr vm \<Rightarrow> vm name | Inl e \<Rightarrow> None)"

text \<open>
  C1 at the scenario. The binding of \<^verbatim>\<open>v\<close> comes from \<^verbatim>\<open>a.auto.tfvars\<close> with that path
  as origin, as the precedence order says, but its value is the one-element list
  \<^verbatim>\<open>["a"]\<close>, not \<^verbatim>\<open>"a"\<close>: the loop over the auto-vars files stores each value as
  decoded, where the \<^verbatim>\<open>terraform.tfvars\<close> step unwraps it with \<^verbatim>\<open>_safe_index(v, 0)\<close>
  (without the auto-vars file the binding is \<^verbatim>\<open>"t"\<close>).
\<close>

theorem auto_tfvars_value_stays_wrapped:
  "binding_of (load_dir_vars tfvars_env root_args new_parser) (KStr ''v'')
     = Some (PList [PStr ''a''], ''/r/a.auto.tfvars'')
   \<and> binding_of (load_dir_vars tfvars_only_env root_args new_parser) (KStr ''v'')
     = Some (PStr ''t'', ''/r/terraform.tfvars'')"
  by code_simp

section \<open>A variable file of the wrong shape\<close>

text \<open>A directory whose only file is \<^verbatim>\<open>terraform.tfvars.json\<close>, holding the JSON array
  \<^verbatim>\<open>[1]\<close>.\<close>

definition json_shape_env :: env where
  "json_shape_env = base_env
     \<lparr>scandir := (\<lambda>d. if d = ''/r'' then Inr [file_entry ''/r'' ''terraform.tfvars.json'']
                       else Inl (OSError ''no such directory'')),
      json_load := (\<lambda>p. if p = ''/r/terraform.tfvars.json'' then Inr (PList [PInt 1])
                         else Inl (OSError ''no such file''))\<rparr>"

text \<open>
  C7 at this input. The root directory is listed and the file decodes without error, yet
  \<^verbatim>\<open>parse_directory\<close> raises: \<^verbatim>\<open>data.items()\<close> on the decoded list is an
  \<^verbatim>\<open>AttributeError\<close> outside every \<^verbatim>\<open>try\<close>.
\<close>

theorem json_array_tfvars_raises:
  "\<not> isl (scandir json_shape_env ''/r'')
   \<and> \<not> isl (json_load json_shape_env ''/r/terraform.tfvars.json'')
   \<and> fst (parse_directory 3 json_shape_env ''/r'' None None new_parser) = Some AttributeError"
  by code_simp

section \<open>The module-load loop is bounded\<close>

lemma load_module_call_forced:
  "load_module_call D E root_dir True nd fl r idx name data (LM, s) = (ex, LM', s')
   \<Longrightarrow> skipped_a_module LM' = skipped_a_module LM"
  by (auto simp: load_module_call_def Let_def
        split: pyval.splits list.splits prod.splits sum.splits if_splits
        dest: load_module_try_skipped)

lemma load_modules_names_forced:
  "load_modules_names D E root_dir True nd fl r idx items (LM, s) = (ex, LM', s')
   \<Longrightarrow> skipped_a_module LM' = skipped_a_module LM"
proof (induction items arbitrary: LM s)
  case Nil
  then show ?case by simp
next
  case (Cons item items)
  obtain name data where item: "item = (name, data)" by (cases item)
  obtain ex1 LM1 s1 where c: "load_module_call D E root_dir True nd fl r idx name data (LM, s) = (ex1, LM1, s1)"
    by (cases "load_module_call D E root_dir True nd fl r idx name data (LM, s)")
  note k = load_module_call_forced[OF c]
  show ?case
  proof (cases ex1)
    case None
    with Cons.prems item c have "load_modules_names D E root_dir True nd fl r idx items (LM1, s1) = (ex, LM', s')"
      by simp
    from Cons.IH[OF this] k show ?thesis by simp
  next
    case (Some e)
    with Cons.prems item c k show ?thesis by simp
  qed
qed

lemma load_modules_calls_forced:
  "load_modules_calls D E root_dir True nd fl r calls (LM, s) = (ex, LM', s')
   \<Longrightarrow> skipped_a_module LM' = skipped_a_module LM"
proof (induction calls arbitrary: LM s)
  case Nil
  then show ?case by simp
next
  case (Cons c calls)
  obtain idx module_call where c: "c = (idx, module_call)" by (cases c)
  show ?case
  proof (cases "\<exists>items. module_call = PDict items")
    case False
    with Cons.prems c have "load_modules_calls D E root_dir True nd fl r calls (LM, s) = (ex, LM', s')"
      by (cases module_call) simp_all
    from Cons.IH[OF this] show ?thesis .
  next
    case True
    then obtain items where mc: "module_call = PDict items" by blast
    obtain ex1 LM1 s1 where n: "load_modules_names D E root_dir True nd fl r idx items (LM, s) = (ex1, LM1, s1)"
      by (cases "load_modules_names D E root_dir True nd fl r idx items (LM, s)")
    note k = load_modules_names_forced[OF n]
    show ?thesis
    proof (cases ex1)
      case None
      with Cons.prems c mc n have "load_modules_calls D E root_dir True nd fl r calls (LM1, s1) = (ex, LM', s')"
        by simp
      from Cons.IH[OF this] k show ?thesis by simp
    next
      case (Some e)
      with Cons.prems c mc n k show ?thesis by simp
    qed
  qed
qed

lemma load_modules_files_forced:
  "load_modules_files D E root_dir True nd files (LM, s) = (ex, LM', s')
   \<Longrightarrow> skipped_a_module LM' = skipped_a_module LM"
proof (induction files arbitrary: LM s)
  case Nil
  then show ?case by simp
next
  case (Cons fl files)
  let ?next = "\<lambda>LM1 s1. load_modules_files D E root_dir True nd files (LM1, s1) = (ex, LM', s')"
  consider (skip) "?next LM s"
    | (raised) "LM' = LM"
    | (calls) r calls ex1 LM1 s1 where
        "load_modules_calls D E root_dir True nd fl r calls (LM, s) = (ex1, LM1, s1)"
        "(ex1 = None \<and> ?next LM1 s1) \<or> (ex1 \<noteq> None \<and> LM' = LM1)"
    using Cons.prems
    by (auto split: if_splits option.splits pyval.splits prod.splits)
  then show ?case
  proof cases
    case skip
    from Cons.IH[OF this] show ?thesis .
  next
    case raised
    then show ?thesis by simp
  next
    case calls
    note k = load_modules_calls_forced[OF calls(1)]
    from calls(2) show ?thesis
    proof
      assume "ex1 = None \<and> ?next LM1 s1"
      then have "?next LM1 s1" ..
      from Cons.IH[OF this] k show ?thesis by simp
    next
      assume "ex1 \<noteq> None \<and> LM' = LM1"
      with k show ?thesis by simp
    qed
  qed
qed

lemma load_modules_forced:
  "load_modules D E root_dir True nd s = (Inr has_more_modules, s') \<Longrightarrow> \<not> has_more_modules"
proof -
  assume a: "load_modules D E root_dir True nd s = (Inr has_more_modules, s')"
  obtain ex LM s1 where f: "load_modules_files D E root_dir True nd (map fst (out_definitions s))
             (\<lparr>all_module_definitions = [], skipped_a_module = False\<rparr>, s) = (ex, LM, s1)"
    by (cases "load_modules_files D E root_dir True nd (map fst (out_definitions s))
             (\<lparr>all_module_definitions = [], skipped_a_module = False\<rparr>, s)")
  from load_modules_files_forced[OF f] have "\<not> skipped_a_module LM" by simp
  with a f show ?thesis
    by (auto simp: load_modules_def split: option.splits if_splits prod.splits)
qed

lemma loop_passes_bounded:
  "module_load_loop D E A rng force s = (ex, passes, s') \<Longrightarrow> passes \<le> length rng"
proof (induction rng arbitrary: force s ex passes s')
  case Nil
  then show ?case by simp
next
  case (Cons i rest)
  obtain res s2 where lm: "load_modules D E (a_directory A) force (a_nested_modules_data A)
                             (pass_start E A s) = (res, s2)"
    by (cases "load_modules D E (a_directory A) force (a_nested_modules_data A) (pass_start E A s)")
  show ?case
  proof (cases res)
    case (Inl e)
    with Cons.prems lm show ?thesis by simp
  next
    case (Inr has_more)
    show ?thesis
    proof (cases has_more)
      case False
      with Cons.prems lm Inr show ?thesis by simp
    next
      case True
      obtain ex3 p3 s3 where rec: "module_load_loop D E A rest True s2 = (ex3, p3, s3)"
        by (cases "module_load_loop D E A rest True s2")
      from Cons.IH[OF rec] have "p3 \<le> length rest" .
      with Cons.prems lm Inr True rec show ?thesis by simp
    qed
  qed
qed

lemma loop_passes_positive:
  "module_load_loop D E A (i # rest) force s = (ex, passes, s') \<Longrightarrow> 1 \<le> passes"
  by (auto simp: Let_def split: prod.splits sum.splits if_splits)

lemma forced_pass_is_last:
  "fst (snd (module_load_loop D E A (i # rest) True s)) = 1"
proof -
  obtain res s2 where lm: "load_modules D E (a_directory A) True (a_nested_modules_data A)
                             (pass_start E A s) = (res, s2)"
    by (cases "load_modules D E (a_directory A) True (a_nested_modules_data A) (pass_start E A s)")
  show ?thesis
  proof (cases res)
    case (Inl e)
    with lm show ?thesis by simp
  next
    case (Inr has_more)
    with lm load_modules_forced have "\<not> has_more" by blast
    with lm Inr show ?thesis by simp
  qed
qed

lemma no_skip_exits:
  "load_modules D E (a_directory A) force (a_nested_modules_data A) (pass_start E A s) = (Inr False, s2)
   \<Longrightarrow> module_load_loop D E A (i # rest) force s = (None, 1, s2)"
  by simp

text \<open>
  C8. Whatever the recursive directory loads \<open>D\<close> do, the module-load loop of a directory
  returns after at least one and at most ten passes. It ends after a pass in which no module
  call was skipped, and a forced pass is always the last one; otherwise the range of ten
  values runs out.
\<close>

theorem module_load_loop_terminates:
  "(\<exists>ex passes s'. module_load_loop D E A [0..<10] False s = (ex, passes, s')
       \<and> 1 \<le> passes \<and> passes \<le> 10)
   \<and> (load_modules D E (a_directory A) force (a_nested_modules_data A) (pass_start E A s) = (Inr False, s2)
        \<longrightarrow> module_load_loop D E A (i # rest) force s = (None, 1, s2))
   \<and> fst (snd (module_load_loop D E A (i # rest) True s)) = 1"
proof (intro conjI)
  obtain ex passes s' where l: "module_load_loop D E A [0..<10] False s = (ex, passes, s')"
    by (cases "module_load_loop D E A [0..<10] False s")
  from loop_passes_bounded[OF l] have "passes \<le> 10" by simp
  moreover have "1 \<le> passes"
  proof -
    have "[0..<10] = 0 # [1..<10]" by (simp add: upt_conv_Cons)
    with l loop_passes_positive show ?thesis by metis
  qed
  ultimately show "\<exists>ex passes s'. module_load_loop D E A [0..<10] False s = (ex, passes, s')
       \<and> 1 \<le> passes \<and> passes \<le> 10" using l by blast
  show "load_modules D E (a_directory A) force (a_nested_modules_data A) (pass_start E A s) = (Inr False, s2)
        \<longrightarrow> module_load_loop D E A (i # rest) force s = (None, 1, s2)"
    using no_skip_exits by blast
  show "fst (snd (module_load_loop D E A (i # rest) True s)) = 1"
    by (rule forced_pass_is_last)
qed


section \<open>An unresolved parameter defers the call to the forced second pass\<close>

lemma tf_key_ends:
  "endswith (get_tf_definition_key_from_module_dependency path dep n) '']''"
  by (simp add: get_tf_definition_key_from_module_dependency_def endswith_iff)

lemma sort_resolved_strs:
  "list_all is_str xs \<Longrightarrow> \<exists>ys. sort_resolved (PList xs) = Inr (PList ys)"
  by (simp add: py_sort_def)

lemma merge_definitions_key_set:
  "fst ` set (fst (merge_definitions base incoming h)) = fst ` set base \<union> fst ` set incoming"
proof (induction incoming arbitrary: base h)
  case Nil
  then show ?case by simp
next
  case (Cons kr incoming)
  obtain k r where kr: "kr = (k, r)" by (cases kr)
  show ?case
  proof (cases "map_of base k")
    case None
    have "fst ` set (fst (merge_definitions (base @ [(k, r)]) incoming h))
            = fst ` set (base @ [(k, r)]) \<union> fst ` set incoming" by (rule Cons.IH)
    with kr None show ?thesis by auto
  next
    case (Some rb)
    then have kb: "k \<in> fst ` set base" by (metis map_of_SomeD image_eqI fst_conv)
    show ?thesis
    proof (cases "(is_dict (hget h rb) \<and> is_dict (hget h r)) \<or> (is_list (hget h rb) \<and> is_list (hget h r))")
      case True
      have "fst ` set (fst (merge_definitions base incoming (h[rb := deep_merge (hget h rb) (hget h r)])))
            = fst ` set base \<union> fst ` set incoming" by (rule Cons.IH)
      with kr Some True kb show ?thesis by auto
    next
      case False
      have "fst ` set (fst (merge_definitions (AList.update k r base) incoming h))
            = fst ` set (AList.update k r base) \<union> fst ` set incoming" by (rule Cons.IH)
      with kr Some False kb show ?thesis by (auto simp: dom_update)
    qed
  qed
qed

lemma merge_definitions_keys:
  "dom (map_of (fst (merge_definitions base incoming h)))
     = dom (map_of base) \<union> dom (map_of incoming)"
  by (simp add: dom_map_of_conv_image_fst merge_definitions_key_set)

lemma second_pass_forced:
  assumes "load_modules D E (a_directory A) False (a_nested_modules_data A) (pass_start E A s)
             = (Inr True, s2)"
  shows "module_load_loop D E A (i # j # rest) False s =
           (case load_modules D E (a_directory A) True (a_nested_modules_data A) (pass_start E A s2) of
              (Inl e, s3) \<Rightarrow> (Some e, 2, s3)
            | (Inr has_more_modules, s3) \<Rightarrow> (None, 2, s3))"
proof -
  obtain res s3 where lm: "load_modules D E (a_directory A) True (a_nested_modules_data A)
                             (pass_start E A s2) = (res, s3)"
    by (cases "load_modules D E (a_directory A) True (a_nested_modules_data A) (pass_start E A s2)")
  show ?thesis
  proof (cases res)
    case (Inl e)
    with lm assms show ?thesis by simp
  next
    case (Inr has_more)
    with lm load_modules_forced have "\<not> has_more" by blast
    with lm assms Inr show ?thesis by simp
  qed
qed

lemma merge_definitions_grow:
  "merge_definitions base inc h = (all', h') \<Longrightarrow>
     dom (map_of base) \<subseteq> dom (map_of all') \<and> dom (map_of inc) \<subseteq> dom (map_of all')"
  using merge_definitions_keys[of base inc h] by simp

lemma load_modules_merges:
  assumes "load_modules D E root_dir ig nd s = (Inr b, s')"
  shows "dom (map_of (all_module_definitions (fst (snd
            (load_modules_files D E root_dir ig nd (map fst (out_definitions s))
               (\<lparr>all_module_definitions = [], skipped_a_module = False\<rparr>, s))))))
         \<subseteq> dom (map_of (out_definitions s'))"
proof -
  obtain ex LM s1 where f: "load_modules_files D E root_dir ig nd (map fst (out_definitions s))
             (\<lparr>all_module_definitions = [], skipped_a_module = False\<rparr>, s) = (ex, LM, s1)"
    by (cases "load_modules_files D E root_dir ig nd (map fst (out_definitions s))
             (\<lparr>all_module_definitions = [], skipped_a_module = False\<rparr>, s)")
  show ?thesis
  proof (cases "all_module_definitions LM = []")
    case True
    with f show ?thesis by simp
  next
    case False
    obtain defs h where m: "merge_definitions (out_definitions s1) (all_module_definitions LM) (heap s1) = (defs, h)"
      by (cases "merge_definitions (out_definitions s1) (all_module_definitions LM) (heap s1)")
    with assms f False have "out_definitions s' = defs"
      by (auto simp: load_modules_def split: option.splits)
    with merge_definitions_grow[OF m] f show ?thesis by simp
  qed
qed

text \<open>
  The state in which a round leaves a call it defers: in nested mode the call is registered
  in \<open>module_to_resolved\<close>, in flat mode nothing changes. A round that does not defer
  marks the call as loaded next; \<open>call_start\<close> is the state in which it then starts the
  directory load of the module.
\<close>

definition registered :: "env \<Rightarrow> nested_data option \<Rightarrow> string \<Rightarrow> nat \<Rightarrow> pykey \<Rightarrow> pstate \<Rightarrow> pstate" where
  "registered E nested_data file module_index module_call_name s =
     (if enable_nested_modules E
      then s\<lparr>module_to_resolved :=
              AList.update (get_file_key_with_nested_data file nested_data, module_index, module_call_name)
                (case map_of (module_to_resolved s)
                        (get_file_key_with_nested_data file nested_data, module_index, module_call_name) of
                   Some v \<Rightarrow> v | None \<Rightarrow> PList [])
                (module_to_resolved s)\<rparr>
      else s)"

definition call_start :: "env \<Rightarrow> nested_data option \<Rightarrow> string \<Rightarrow> nat \<Rightarrow> pykey \<Rightarrow> pstate \<Rightarrow> pstate" where
  "call_start E nested_data file module_index module_call_name s =
     (registered E nested_data file module_index module_call_name s)
       \<lparr>loaded_modules := insert (file, module_index, module_call_name) (loaded_modules s)\<rparr>"

text \<open>
  The key under which a definition of a module enters the store, and the keys that
  \<^verbatim>\<open>get_new_nested_module_key\<close> marks as visited on the way (none in flat mode).
\<close>

definition instance_key :: "env \<Rightarrow> string \<Rightarrow> string \<Rightarrow> nat \<Rightarrow> nested_data option \<Rightarrow> string" where
  "instance_key E key file module_index nested_data =
     (if enable_nested_modules E
      then fst (get_new_nested_module_key key file module_index nested_data {})
      else get_tf_definition_key_from_module_dependency key file module_index)"

definition visit_marks :: "env \<Rightarrow> string \<Rightarrow> string \<Rightarrow> nat \<Rightarrow> nested_data option \<Rightarrow> string set" where
  "visit_marks E key file module_index nested_data =
     (if enable_nested_modules E
      then snd (get_new_nested_module_key key file module_index nested_data {})
      else {})"

text \<open>The round of a call on a pass that is not forced, and on a forced one.\<close>

lemma round_deferred:
  assumes "enable_nested_modules E \<or> (fl, idx, name) \<notin> loaded_modules s"
    and "module_params data = Inr sv" and "has_unresolved_params E sv"
  shows "load_module_call D E root_dir False nd fl r idx name (PDict data) (LM, s)
           = (None, LM\<lparr>skipped_a_module := True\<rparr>, registered E nd fl idx name s)"
  using assms by (auto simp: load_module_call_def Let_def registered_def)

lemma round_forced:
  assumes "enable_nested_modules E \<or> (fl, idx, name) \<notin> loaded_modules s"
    and "module_params data = Inr sv"
    and "dict_get data (KStr ''source'') = PList (PStr source0 # sources)"
  shows "load_module_call D E root_dir True nd fl r idx name (PDict data) (LM, s)
           = (None, snd (load_module_try D E root_dir nd fl r idx name sv (resolved_source fl source0)
                     (call_version data) (LM, call_start E nd fl idx name s)))"
  using assms
  by (auto simp: load_module_call_def Let_def registered_def call_start_def split: prod.splits)

text \<open>The instance keys of different definitions differ, no instance key is the mark of
  another definition, and so the key-rewriting loop gives a definition whose instance key
  has not been visited its place in the scratch map.\<close>

lemma new_nested_key_split:
  "new_nested_key key fl i nd V
     = (fst (new_nested_key key fl i nd {}), V \<union> snd (new_nested_key key fl i nd {}))"
proof (induction nd arbitrary: key fl i V)
  case (NestedData nmi nf ndo)
  show ?case
  proof (cases ndo)
    case None
    then show ?thesis by (simp add: Let_def)
  next
    case (Some nd')
    then have nd': "nd' \<in> set_option ndo" by simp
    note IH = NestedData.IH[OF nd', of "[]" nf nmi]
    have a: "new_nested_key [] nf nmi nd'
               (insert (get_tf_definition_key_from_module_dependency key fl i) V)
             = (fst (new_nested_key [] nf nmi nd' {}),
                insert (get_tf_definition_key_from_module_dependency key fl i) V
                  \<union> snd (new_nested_key [] nf nmi nd' {}))"
      by (rule IH)
    have b: "new_nested_key [] nf nmi nd'
               {get_tf_definition_key_from_module_dependency key fl i}
             = (fst (new_nested_key [] nf nmi nd' {}),
                {get_tf_definition_key_from_module_dependency key fl i}
                  \<union> snd (new_nested_key [] nf nmi nd' {}))"
      by (rule IH)
    show ?thesis using Some a b by (simp add: Let_def)
  qed
qed

lemma new_nested_key_ends: "endswith (fst (new_nested_key key fl i nd V)) '']''"
  by (cases nd) (simp add: Let_def split_beta tf_key_ends)

lemma new_nested_key_shape:
  "\<exists>N M. endswith N '']''
     \<and> (\<forall>key. fst (new_nested_key key fl i nd {})
                 = get_tf_definition_key_from_module_dependency key (fl @ N) i)
     \<and> (\<forall>key. snd (new_nested_key key fl i nd {})
                 = insert (get_tf_definition_key_from_module_dependency key fl i) M)"
proof (cases nd)
  case (NestedData nmi nf ndo)
  show ?thesis
  proof (cases ndo)
    case None
    with NestedData show ?thesis
      by (intro exI[of _ "get_tf_definition_key_from_module_dependency [] nf nmi"] exI[of _ "{}"])
         (simp add: Let_def tf_key_ends)
  next
    case (Some nd')
    have e: "endswith (fst (new_nested_key [] nf nmi nd' {})) '']''"
      by (rule new_nested_key_ends)
    have sp: "new_nested_key [] nf nmi nd' {get_tf_definition_key_from_module_dependency key fl i}
             = (fst (new_nested_key [] nf nmi nd' {}),
                {get_tf_definition_key_from_module_dependency key fl i}
                  \<union> snd (new_nested_key [] nf nmi nd' {}))" for key
      by (rule new_nested_key_split)
    show ?thesis using NestedData Some e sp
      by (intro exI[of _ "fst (new_nested_key [] nf nmi nd' {})"]
                exI[of _ "snd (new_nested_key [] nf nmi nd' {})"])
         (simp add: Let_def)
  qed
qed


lemma nested_key_split:
  assumes "enable_nested_modules E"
  shows "get_new_nested_module_key key fl idx nd V
           = (instance_key E key fl idx nd, V \<union> visit_marks E key fl idx nd)"
proof (cases nd)
  case None
  with assms show ?thesis
    by (simp add: get_new_nested_module_key_def instance_key_def visit_marks_def)
next
  case (Some ndd)
  with assms new_nested_key_split[of key fl idx ndd V] show ?thesis
    by (simp add: get_new_nested_module_key_def instance_key_def visit_marks_def)
qed

lemma endswith_bracket: "endswith s '']'' \<longleftrightarrow> s \<noteq> [] \<and> last s = CHR '']''"
proof
  assume "endswith s '']''"
  then obtain pre where "s = pre @ '']''" by (auto simp: endswith_iff)
  then show "s \<noteq> [] \<and> last s = CHR '']''" by simp
next
  assume a: "s \<noteq> [] \<and> last s = CHR '']''"
  then have "s = butlast s @ '']''" by (metis append_butlast_last_id)
  then show "endswith s '']''" unfolding endswith_iff by blast
qed

lemma instance_key_ends: "endswith (instance_key E key fl idx nd) '']''"
proof (cases "enable_nested_modules E")
  case False
  then show ?thesis by (simp add: instance_key_def tf_key_ends)
next
  case True
  show ?thesis
  proof (cases nd)
    case None
    with True show ?thesis
      by (simp add: instance_key_def get_new_nested_module_key_def tf_key_ends)
  next
    case (Some ndd)
    with True show ?thesis
      by (simp add: instance_key_def get_new_nested_module_key_def new_nested_key_ends)
  qed
qed

lemma instance_key_inj:
  assumes "instance_key E k fl idx nd = instance_key E k' fl idx nd"
  shows "k = k'"
proof (cases "enable_nested_modules E \<and> nd \<noteq> None")
  case False
  with assms show ?thesis
    by (auto simp: instance_key_def get_new_nested_module_key_def
          get_tf_definition_key_from_module_dependency_def split: if_splits)
next
  case True
  then obtain ndd where nd: "nd = Some ndd" by auto
  from new_nested_key_shape[of fl idx ndd] obtain N where
    "\<forall>key. fst (new_nested_key key fl idx ndd {})
                 = get_tf_definition_key_from_module_dependency key (fl @ N) idx" by blast
  with assms True nd show ?thesis
    by (simp add: instance_key_def get_new_nested_module_key_def
          get_tf_definition_key_from_module_dependency_def)
qed

lemma tf_key_differs:
  assumes "endswith N '']''" and "\<not> endswith fl '']''"
  shows "get_tf_definition_key_from_module_dependency K (fl @ N) i
           \<noteq> get_tf_definition_key_from_module_dependency k fl i"
proof
  assume "get_tf_definition_key_from_module_dependency K (fl @ N) i
           = get_tf_definition_key_from_module_dependency k fl i"
  then have "(K @ ''['' @ fl @ N) @ (''#'' @ str_of_nat i @ '']'')
             = (k @ ''['' @ fl) @ (''#'' @ str_of_nat i @ '']'')"
    by (simp add: get_tf_definition_key_from_module_dependency_def)
  then have eq: "K @ ''['' @ fl @ N = k @ ''['' @ fl" by (simp only: append_same_eq)
  from assms(1) have "N \<noteq> []" "last N = CHR '']''" by (simp_all add: endswith_bracket)
  then have "last (K @ ''['' @ fl @ N) = CHR '']''" by simp
  with eq have l: "last (k @ ''['' @ fl) = CHR '']''" by simp
  show False
  proof (cases "fl = []")
    case True
    with l show False by simp
  next
    case False
    with l have "last fl = CHR '']''" by simp
    with False assms(2) show False by (simp add: endswith_bracket)
  qed
qed

lemma marks_of_other_key:
  assumes nf: "\<not> endswith fl '']''"
    and own: "instance_key E K fl idx nd \<notin> visit_marks E K fl idx nd"
  shows "instance_key E K fl idx nd \<notin> visit_marks E k fl idx nd"
proof (cases "enable_nested_modules E \<and> nd \<noteq> None")
  case False
  then show ?thesis by (auto simp: visit_marks_def get_new_nested_module_key_def)
next
  case True
  then obtain ndd where nd: "nd = Some ndd" by auto
  from new_nested_key_shape[of fl idx ndd] obtain N M where
    e: "endswith N '']''"
    and f: "\<forall>key. fst (new_nested_key key fl idx ndd {})
                 = get_tf_definition_key_from_module_dependency key (fl @ N) idx"
    and m: "\<forall>key. snd (new_nested_key key fl idx ndd {})
                 = insert (get_tf_definition_key_from_module_dependency key fl idx) M"
    by blast
  have ik: "instance_key E K fl idx nd = get_tf_definition_key_from_module_dependency K (fl @ N) idx"
    using True nd f by (simp add: instance_key_def get_new_nested_module_key_def)
  have mk: "visit_marks E k' fl idx nd
              = insert (get_tf_definition_key_from_module_dependency k' fl idx) M" for k'
    using True nd m by (simp add: visit_marks_def get_new_nested_module_key_def)
  from own have "instance_key E K fl idx nd \<notin> M" by (simp add: mk)
  moreover have "instance_key E K fl idx nd \<noteq> get_tf_definition_key_from_module_dependency k fl idx"
    unfolding ik by (rule tf_key_differs[OF e nf])
  ultimately show ?thesis by (simp add: mk)
qed

lemma rewrite_keys_step:
  assumes nk: "\<not> endswith key '']''" and nf: "\<not> endswith fl '']''"
    and r: "map_of (module_definitions L) key = Some r"
    and ro: "map_of (out_definitions s) key = Some ro"
    and rl: "resolved_loc_list L = PList xs"
  shows "\<exists>L2 s2 xs2. rewrite_keys E fl idx name nd (key # ks) (L, s)
                        = rewrite_keys E fl idx name nd ks (L2, s2)
      \<and> out_definitions s2 = AList.delete key (out_definitions s)
      \<and> visited_definition_keys s2
          \<subseteq> visited_definition_keys s \<union> visit_marks E key fl idx nd \<union> {instance_key E key fl idx nd}
      \<and> resolved_loc_list L2 = PList xs2 \<and> (list_all is_str xs \<longrightarrow> list_all is_str xs2)
      \<and> (module_definitions L2
            = AList.delete key (AList.update (instance_key E key fl idx nd) r (module_definitions L))
          \<or> (enable_nested_modules E
              \<and> instance_key E key fl idx nd
                  \<in> visited_definition_keys s \<union> visit_marks E key fl idx nd
              \<and> module_definitions L2 = AList.delete key (module_definitions L)))"
proof -
  define new_key where "new_key = instance_key E key fl idx nd"
  define visited where "visited = (if enable_nested_modules E
       then visited_definition_keys s \<union> visit_marks E key fl idx nd else visited_definition_keys s)"
  have n1: "get_new_nested_module_key key fl idx nd (visited_definition_keys s) = (new_key, visited)"
    if "enable_nested_modules E"
    using that nested_key_split[OF that] by (simp add: new_key_def visited_def)
  have n2: "get_tf_definition_key_from_module_dependency key fl idx = new_key"
    if "\<not> enable_nested_modules E"
    using that by (simp add: new_key_def instance_key_def)
  define xs1 where "xs1 = (if PStr new_key \<in> set xs then xs else xs @ [PStr new_key])"
  show ?thesis
  proof (cases "enable_nested_modules E \<and> new_key \<in> visited")
    case True
    define L2 where "L2 = L\<lparr>module_definitions := AList.delete key (module_definitions L)\<rparr>"
    define s2 where "s2 = s\<lparr>keys_referenced_as_modules := insert key (keys_referenced_as_modules s),
                            visited_definition_keys := visited,
                            out_definitions := AList.delete key (out_definitions s)\<rparr>"
    have step: "rewrite_keys E fl idx name nd (key # ks) (L, s)
                = rewrite_keys E fl idx name nd ks (L2, s2)"
      using nk nf True n1 ro by (simp add: Let_def L2_def s2_def)
    show ?thesis
      apply (rule exI[of _ L2], rule exI[of _ s2], rule exI[of _ xs])
      using step True rl
      by (auto simp: L2_def s2_def visited_def new_key_def)
  next
    case nv: False
    define L2 where "L2 = L\<lparr>module_definitions :=
                               AList.delete key (AList.update new_key r (module_definitions L)),
                            resolved_loc_list := PList xs1\<rparr>"
    define s1 where "s1 = s\<lparr>keys_referenced_as_modules := insert key (keys_referenced_as_modules s),
                           visited_definition_keys := visited,
                           out_definitions := AList.delete key (out_definitions s),
                           keys_to_remove := insert key (keys_to_remove s)\<rparr>"
    define s4 where "s4 = (if enable_nested_modules E
                           then s1\<lparr>visited_definition_keys := insert new_key (visited_definition_keys s1)\<rparr>
                           else s1)"
    define s5 where "s5 = (if module_address_map s4 (fl, name) = None
                           then s4\<lparr>module_address_map :=
                                     (module_address_map s4)((fl, name) \<mapsto> str_of_nat idx)\<rparr>
                           else s4)"
    have step: "rewrite_keys E fl idx name nd (key # ks) (L, s)
                = rewrite_keys E fl idx name nd ks (L2, s5)"
    proof (cases "enable_nested_modules E")
      case True
      with nv have "new_key \<notin> visited" by simp
      with nk nf True n1[OF True] r ro rl show ?thesis
        by (simp add: Let_def L2_def s1_def s4_def s5_def xs1_def)
    next
      case flat: False
      then have "visited = visited_definition_keys s" by (simp add: visited_def)
      with nk nf flat n2[OF flat] r ro rl show ?thesis
        by (simp add: Let_def L2_def s1_def s4_def s5_def xs1_def)
    qed
    show ?thesis
      apply (rule exI[of _ L2], rule exI[of _ s5], rule exI[of _ xs1])
      using step
      by (auto simp: L2_def s5_def s4_def s1_def visited_def new_key_def xs1_def)
  qed
qed


lemma rewrite_keys_adds:
  assumes nf: "\<not> endswith fl '']''"
  shows "distinct ks \<Longrightarrow>
     (\<forall>k \<in> set ks. k \<in> dom (map_of (module_definitions L)) \<and> k \<in> dom (map_of (out_definitions s))) \<Longrightarrow>
     resolved_loc_list L = PList xs \<Longrightarrow> list_all is_str xs \<Longrightarrow>
     (instance_key E K fl idx nd \<in> dom (map_of (module_definitions L))
      \<or> (K \<in> set ks \<and> \<not> endswith K '']''
          \<and> (enable_nested_modules E \<longrightarrow>
                instance_key E K fl idx nd
                  \<notin> visited_definition_keys s \<union> visit_marks E K fl idx nd))) \<Longrightarrow>
     \<exists>L' s' xs'. rewrite_keys E fl idx name nd ks (L, s) = (None, L', s')
        \<and> resolved_loc_list L' = PList xs' \<and> list_all is_str xs'
        \<and> instance_key E K fl idx nd \<in> dom (map_of (module_definitions L'))"
proof (induction ks arbitrary: L s xs)
  case Nil
  then show ?case by simp
next
  case (Cons key ks)
  from Cons.prems(1) have d: "distinct ks" and nk: "key \<notin> set ks" by simp_all
  show ?case
  proof (cases "endswith key '']''")
    case True
    from Cons.prems(2) have m: "\<forall>k \<in> set ks. k \<in> dom (map_of (module_definitions L))
        \<and> k \<in> dom (map_of (out_definitions s))" by simp
    from Cons.prems(5) True have p: "instance_key E K fl idx nd \<in> dom (map_of (module_definitions L))
      \<or> (K \<in> set ks \<and> \<not> endswith K '']''
          \<and> (enable_nested_modules E \<longrightarrow>
                instance_key E K fl idx nd
                  \<notin> visited_definition_keys s \<union> visit_marks E K fl idx nd))" by auto
    from Cons.IH[OF d m Cons.prems(3,4) p] True show ?thesis by simp
  next
    case False
    from Cons.prems(2) obtain r ro where r: "map_of (module_definitions L) key = Some r"
      and ro: "map_of (out_definitions s) key = Some ro" by auto
    from rewrite_keys_step[OF False nf r ro Cons.prems(3), of E idx name nd ks]
    obtain L2 s2 xs2 where
      step: "rewrite_keys E fl idx name nd (key # ks) (L, s) = rewrite_keys E fl idx name nd ks (L2, s2)"
      and o2: "out_definitions s2 = AList.delete key (out_definitions s)"
      and v2: "visited_definition_keys s2
          \<subseteq> visited_definition_keys s \<union> visit_marks E key fl idx nd \<union> {instance_key E key fl idx nd}"
      and rl2: "resolved_loc_list L2 = PList xs2" and st: "list_all is_str xs \<longrightarrow> list_all is_str xs2"
      and md2: "module_definitions L2
            = AList.delete key (AList.update (instance_key E key fl idx nd) r (module_definitions L))
          \<or> (enable_nested_modules E
              \<and> instance_key E key fl idx nd
                  \<in> visited_definition_keys s \<union> visit_marks E key fl idx nd
              \<and> module_definitions L2 = AList.delete key (module_definitions L))"
      by blast
    have st2: "list_all is_str xs2" using st Cons.prems(4) by simp
    have m: "\<forall>k \<in> set ks. k \<in> dom (map_of (module_definitions L2)) \<and> k \<in> dom (map_of (out_definitions s2))"
    proof
      fix k assume k: "k \<in> set ks"
      with nk have ne: "k \<noteq> key" by auto
      from k Cons.prems(2) have a: "k \<in> dom (map_of (module_definitions L))"
        and b: "k \<in> dom (map_of (out_definitions s))" by simp_all
      from md2 a ne have "k \<in> dom (map_of (module_definitions L2))"
        by (auto simp: delete_conv' update_conv')
      moreover from o2 b ne have "k \<in> dom (map_of (out_definitions s2))"
        by (auto simp: delete_conv')
      ultimately show "k \<in> dom (map_of (module_definitions L2)) \<and> k \<in> dom (map_of (out_definitions s2))" ..
    qed
    have ike: "instance_key E K fl idx nd \<noteq> key"
      using instance_key_ends[of E K fl idx nd] False by auto
    have p: "instance_key E K fl idx nd \<in> dom (map_of (module_definitions L2))
      \<or> (K \<in> set ks \<and> \<not> endswith K '']''
          \<and> (enable_nested_modules E \<longrightarrow>
                instance_key E K fl idx nd
                  \<notin> visited_definition_keys s2 \<union> visit_marks E K fl idx nd))"
    proof (cases "instance_key E K fl idx nd \<in> dom (map_of (module_definitions L))")
      case True
      with md2 ike have "instance_key E K fl idx nd \<in> dom (map_of (module_definitions L2))"
        by (auto simp: delete_conv' update_conv')
      then show ?thesis ..
    next
      case nd0: False
      with Cons.prems(5) have K: "K \<in> set (key # ks)" and Ke: "\<not> endswith K '']''"
        and nv: "enable_nested_modules E \<longrightarrow>
                instance_key E K fl idx nd
                  \<notin> visited_definition_keys s \<union> visit_marks E K fl idx nd" by auto
      show ?thesis
      proof (cases "key = K")
        case True
        with md2 nv have "module_definitions L2
            = AList.delete key (AList.update (instance_key E key fl idx nd) r (module_definitions L))"
          by auto
        with True ike have "instance_key E K fl idx nd \<in> dom (map_of (module_definitions L2))"
          by (simp add: delete_conv' update_conv')
        then show ?thesis ..
      next
        case ne: False
        with K have Ks: "K \<in> set ks" by simp
        have "instance_key E K fl idx nd \<notin> visited_definition_keys s2 \<union> visit_marks E K fl idx nd"
          if n: "enable_nested_modules E"
        proof -
          from nv n have a: "instance_key E K fl idx nd \<notin> visited_definition_keys s"
            and b: "instance_key E K fl idx nd \<notin> visit_marks E K fl idx nd" by simp_all
          have c: "instance_key E K fl idx nd \<notin> visit_marks E key fl idx nd"
            by (rule marks_of_other_key[OF nf b])
          have e: "instance_key E K fl idx nd \<noteq> instance_key E key fl idx nd"
            using ne instance_key_inj by blast
          from a b c e v2 show ?thesis by blast
        qed
        with Ks Ke show ?thesis by blast
      qed
    qed
    from Cons.IH[OF d m rl2 st2 p] show ?thesis unfolding step .
  qed
qed


lemma load_module_try_adds:
  assumes nf: "\<not> endswith fl '']''"
    and reg: "registry_load E root_dir source version = Inr content" and ld: "mc_loaded content"
    and desc: "D (module_dl_args content sv idx fl nd) s = (None, s1)"
    and dist: "distinct (map fst (out_definitions s1))"
    and res0: "read_resolved E (get_file_key_with_nested_data fl nd, idx, name) r idx name s1 = PList xs"
              "list_all is_str xs"
    and key: "(key, rk) \<in> set (out_definitions s1)" "dirname key = mc_path content"
             "\<not> endswith key '']''"
    and nv: "enable_nested_modules E \<longrightarrow>
               instance_key E key fl idx nd
                 \<notin> visited_definition_keys s1 \<union> visit_marks E key fl idx nd"
  shows "instance_key E key fl idx nd
           \<in> dom (map_of (all_module_definitions
                  (fst (snd (load_module_try D E root_dir nd fl r idx name sv source version (LM, s))))))"
proof -
  define defs where "defs = filter (\<lambda>(path, d). dirname path = mc_path content) (out_definitions s1)"
  define cur where "cur = (get_file_key_with_nested_data fl nd, idx, name)"
  define resolved0 where "resolved0 = read_resolved E cur r idx name s1"
  define s2 where "s2 = write_resolved E cur r idx name resolved0 s1"
  from key have kd: "(key, rk) \<in> set defs" by (simp add: defs_def)
  then have ne: "defs \<noteq> []" by auto
  have r0: "resolved0 = PList xs" using res0(1) by (simp add: resolved0_def cur_def)
  have o2: "out_definitions s2 = out_definitions s1"
    and v2: "visited_definition_keys s2 = visited_definition_keys s1"
    by (simp_all add: s2_def write_resolved_def)
  have dk: "distinct (map fst defs)" using dist by (simp add: defs_def distinct_map_filter)
  define L0 where "L0 = \<lparr>module_definitions = defs, resolved_loc_list = resolved0\<rparr>"
  have dom_defs: "\<forall>k \<in> set (map fst defs). k \<in> dom (map_of (module_definitions L0))
        \<and> k \<in> dom (map_of (out_definitions s2))"
    unfolding o2 by (auto simp: L0_def defs_def dom_map_of_conv_image_fst intro: rev_image_eqI)
  have rl0: "resolved_loc_list L0 = PList xs" by (simp add: L0_def r0)
  have pend: "instance_key E key fl idx nd \<in> dom (map_of (module_definitions L0))
      \<or> (key \<in> set (map fst defs) \<and> \<not> endswith key '']''
          \<and> (enable_nested_modules E \<longrightarrow>
                instance_key E key fl idx nd
                  \<notin> visited_definition_keys s2 \<union> visit_marks E key fl idx nd))"
    using kd key(3) nv v2 by force
  from rewrite_keys_adds[OF nf dk dom_defs rl0 res0(2) pend, of name]
  obtain L' s3 xs' where
    rk: "rewrite_keys E fl idx name nd (map fst defs) (L0, s2) = (None, L', s3)"
    and rl: "resolved_loc_list L' = PList xs'" and st: "list_all is_str xs'"
    and new: "instance_key E key fl idx nd \<in> dom (map_of (module_definitions L'))"
    by blast
  from sort_resolved_strs[OF st] rl obtain ys where so: "sort_resolved (resolved_loc_list L') = Inr (PList ys)"
    by auto
  define s4 where "s4 = write_resolved E cur r idx name (resolved_loc_list L') s3"
  define s5 where "s5 = write_resolved E cur r idx name (PList ys) s4"
  define all' where "all' = (if all_module_definitions LM \<noteq> []
                             then fst (merge_definitions (all_module_definitions LM) (module_definitions L') (heap s5))
                             else module_definitions L')"
  have in_all: "instance_key E key fl idx nd \<in> dom (map_of all')"
    using new by (simp add: all'_def merge_definitions_keys)
  have "all_module_definitions
          (fst (snd (load_module_try D E root_dir nd fl r idx name sv source version (LM, s)))) = all'"
    using reg ld desc ne rk so
    by (simp add: load_module_try_def Let_def defs_def[symmetric] cur_def[symmetric]
          resolved0_def[symmetric] s2_def[symmetric] L0_def[symmetric] s4_def[symmetric]
          s5_def[symmetric] all'_def split: prod.splits)
  with in_all show ?thesis by simp
qed

text \<open>During a pass \<open>skipped_a_module\<close> is never reset and the scratch map of the pass
  never loses a key.\<close>

definition lm_le :: "lm_locals \<Rightarrow> lm_locals \<Rightarrow> bool" where
  "lm_le LM LM' =
     ((skipped_a_module LM \<longrightarrow> skipped_a_module LM')
      \<and> dom (map_of (all_module_definitions LM)) \<subseteq> dom (map_of (all_module_definitions LM')))"

lemma lm_le_refl: "lm_le LM LM"
  by (simp add: lm_le_def)

lemma lm_le_trans: "lm_le a b \<Longrightarrow> lm_le b c \<Longrightarrow> lm_le a c"
  by (auto simp: lm_le_def)

lemma lm_le_skip: "lm_le LM (LM\<lparr>skipped_a_module := True\<rparr>)"
  by (simp add: lm_le_def)

lemma load_module_try_le:
  "load_module_try D E root_dir nd fl r idx name sv source version (LM, s) = (ex, LM', s')
   \<Longrightarrow> lm_le LM LM'"
  unfolding load_module_try_def Let_def lm_le_def
  by (auto split: sum.splits if_splits option.splits prod.splits dest!: merge_definitions_grow)

lemma load_module_call_le:
  "load_module_call D E root_dir ig nd fl r idx name data (LM, s) = (ex, LM', s')
   \<Longrightarrow> lm_le LM LM'"
  by (auto simp: load_module_call_def Let_def lm_le_refl lm_le_skip
        split: pyval.splits list.splits prod.splits sum.splits if_splits
        dest!: load_module_try_le)


lemma load_modules_names_le:
  "load_modules_names D E root_dir ig nd fl r idx items (LM, s) = (ex, LM', s') \<Longrightarrow> lm_le LM LM'"
proof (induction items arbitrary: LM s)
  case Nil
  then show ?case by (simp add: lm_le_refl)
next
  case (Cons item items)
  obtain name data where item: "item = (name, data)" by (cases item)
  obtain ex1 LM1 s1 where c: "load_module_call D E root_dir ig nd fl r idx name data (LM, s) = (ex1, LM1, s1)"
    by (cases "load_module_call D E root_dir ig nd fl r idx name data (LM, s)")
  note le1 = load_module_call_le[OF c]
  show ?case
  proof (cases ex1)
    case None
    with Cons.prems item c have "load_modules_names D E root_dir ig nd fl r idx items (LM1, s1) = (ex, LM', s')"
      by simp
    from lm_le_trans[OF le1 Cons.IH[OF this]] show ?thesis .
  next
    case (Some e)
    with Cons.prems item c le1 show ?thesis by simp
  qed
qed

lemma load_modules_calls_le:
  "load_modules_calls D E root_dir ig nd fl r calls (LM, s) = (ex, LM', s') \<Longrightarrow> lm_le LM LM'"
proof (induction calls arbitrary: LM s)
  case Nil
  then show ?case by (simp add: lm_le_refl)
next
  case (Cons c calls)
  obtain idx call where c: "c = (idx, call)" by (cases c)
  show ?case
  proof (cases call)
    case (PDict items)
    obtain ex1 LM1 s1 where n: "load_modules_names D E root_dir ig nd fl r idx items (LM, s) = (ex1, LM1, s1)"
      by (cases "load_modules_names D E root_dir ig nd fl r idx items (LM, s)")
    note le1 = load_modules_names_le[OF n]
    show ?thesis
    proof (cases ex1)
      case None
      with Cons.prems c PDict n have "load_modules_calls D E root_dir ig nd fl r calls (LM1, s1) = (ex, LM', s')"
        by simp
      from lm_le_trans[OF le1 Cons.IH[OF this]] show ?thesis .
    next
      case (Some e)
      with Cons.prems c PDict n le1 show ?thesis by simp
    qed
  qed (use c Cons in simp_all)
qed

lemma load_modules_files_le:
  "load_modules_files D E root_dir ig nd files (LM, s) = (ex, LM', s') \<Longrightarrow> lm_le LM LM'"
proof (induction files arbitrary: LM s)
  case Nil
  then show ?case by (simp add: lm_le_refl)
next
  case (Cons fl files)
  show ?case
  proof (cases "dirname fl \<noteq> root_dir \<or> endswith fl '']''")
    case True
    with Cons show ?thesis by auto
  next
    case False
    show ?thesis
    proof (cases "map_of (out_definitions s) fl")
      case None
      with False Cons show ?thesis by simp
    next
      case (Some r)
      show ?thesis
      proof (cases "hget (heap s) r")
        case (PDict file_data)
        show ?thesis
        proof (cases "dict_get file_data (KStr ''module'')")
          case (PList module_calls)
          obtain ex1 LM1 s1 where n:
            "load_modules_calls D E root_dir ig nd fl r
               (zip [0..<length module_calls] module_calls) (LM, s) = (ex1, LM1, s1)"
            by (cases "load_modules_calls D E root_dir ig nd fl r
               (zip [0..<length module_calls] module_calls) (LM, s)")
          note le1 = load_modules_calls_le[OF n]
          show ?thesis
          proof (cases ex1)
            case None
            with Cons.prems False Some PDict PList n
            have "load_modules_files D E root_dir ig nd files (LM1, s1) = (ex, LM', s')" by simp
            from lm_le_trans[OF le1 Cons.IH[OF this]] show ?thesis .
          next
            case (Some e)
            with Cons.prems False \<open>map_of (out_definitions s) fl = Some r\<close> PDict PList n le1
            show ?thesis by simp
          qed
        qed (use False Some PDict Cons in simp_all)
      qed (use False Some Cons in \<open>simp_all add: lm_le_refl\<close>)
    qed
  qed
qed

text \<open>The three loops of a pass, split at a position.\<close>

lemma load_modules_names_append:
  "load_modules_names D E root_dir ig nd fl r idx (xs @ ys) (LM, s)
     = (case load_modules_names D E root_dir ig nd fl r idx xs (LM, s) of
          (Some e, LM', s') \<Rightarrow> (Some e, LM', s')
        | (None, LM', s') \<Rightarrow> load_modules_names D E root_dir ig nd fl r idx ys (LM', s'))"
proof (induction xs arbitrary: LM s)
  case Nil
  then show ?case by simp
next
  case (Cons item xs)
  obtain name data where item: "item = (name, data)" by (cases item)
  obtain ex1 LM1 s1 where c: "load_module_call D E root_dir ig nd fl r idx name data (LM, s) = (ex1, LM1, s1)"
    by (cases "load_module_call D E root_dir ig nd fl r idx name data (LM, s)")
  show ?case using item c Cons.IH[of LM1 s1] by (cases ex1) simp_all
qed

lemma load_modules_calls_append:
  "load_modules_calls D E root_dir ig nd fl r (xs @ ys) (LM, s)
     = (case load_modules_calls D E root_dir ig nd fl r xs (LM, s) of
          (Some e, LM', s') \<Rightarrow> (Some e, LM', s')
        | (None, LM', s') \<Rightarrow> load_modules_calls D E root_dir ig nd fl r ys (LM', s'))"
proof (induction xs arbitrary: LM s)
  case Nil
  then show ?case by simp
next
  case (Cons c xs)
  obtain idx call where c: "c = (idx, call)" by (cases c)
  show ?case
  proof (cases call)
    case (PDict items)
    obtain ex1 LM1 s1 where n: "load_modules_names D E root_dir ig nd fl r idx items (LM, s) = (ex1, LM1, s1)"
      by (cases "load_modules_names D E root_dir ig nd fl r idx items (LM, s)")
    show ?thesis using c PDict n Cons.IH[of LM1 s1] by (cases ex1) simp_all
  qed (use c Cons in simp_all)
qed

lemma load_modules_files_append:
  "load_modules_files D E root_dir ig nd (xs @ ys) (LM, s)
     = (case load_modules_files D E root_dir ig nd xs (LM, s) of
          (Some e, LM', s') \<Rightarrow> (Some e, LM', s')
        | (None, LM', s') \<Rightarrow> load_modules_files D E root_dir ig nd ys (LM', s'))"
proof (induction xs arbitrary: LM s)
  case Nil
  then show ?case by simp
next
  case (Cons fl xs)
  show ?case
  proof (cases "dirname fl \<noteq> root_dir \<or> endswith fl '']''")
    case True
    with Cons show ?thesis by auto
  next
    case False
    show ?thesis
    proof (cases "map_of (out_definitions s) fl")
      case None
      with False Cons show ?thesis by simp
    next
      case (Some r)
      show ?thesis
      proof (cases "hget (heap s) r")
        case (PDict file_data)
        show ?thesis
        proof (cases "dict_get file_data (KStr ''module'')")
          case (PList module_calls)
          obtain ex1 LM1 s1 where n:
            "load_modules_calls D E root_dir ig nd fl r
               (zip [0..<length module_calls] module_calls) (LM, s) = (ex1, LM1, s1)"
            by (cases "load_modules_calls D E root_dir ig nd fl r
               (zip [0..<length module_calls] module_calls) (LM, s)")
          show ?thesis using False Some PDict PList n Cons.IH[of LM1 s1] by (cases ex1) simp_all
        qed (use False Some PDict Cons in simp_all)
      qed (use False Some Cons in simp_all)
    qed
  qed
qed

lemma zip_upt_split:
  assumes "idx < length xs"
  shows "zip [0..<length xs] xs
           = zip [0..<idx] (take idx xs) @ (idx, xs ! idx) # zip [Suc idx..<length xs] (drop (Suc idx) xs)"
proof -
  have "zip [0..<length xs] xs = zip ([0..<idx] @ idx # [Suc idx..<length xs])
                                     (take idx xs @ xs ! idx # drop (Suc idx) xs)"
    using assms by (metis id_take_nth_drop upt_conv_Cons upt_add_eq_append le_add_diff_inverse
          less_imp_le_nat zero_le add_0)
  also have "\<dots> = zip [0..<idx] (take idx xs) @ (idx, xs ! idx) # zip [Suc idx..<length xs] (drop (Suc idx) xs)"
    using assms by (subst zip_append) simp_all
  finally show ?thesis .
qed


text \<open>
  Where a pass meets a call. For a pass started in \<open>s\<close> that has gone through the files
  \<open>files_before\<close> of the snapshot, through the module blocks of file \<open>fl\<close> before
  position \<open>idx\<close> and through the entries \<open>items_before\<close> of that block, all without an
  exception leaving \<^verbatim>\<open>_load_modules\<close>, \<open>round_start\<close> gives the payload address and
  the module blocks of \<open>fl\<close> and the locals and the state with which the next round
  starts.
\<close>

definition round_start ::
  "descend \<Rightarrow> env \<Rightarrow> string \<Rightarrow> bool \<Rightarrow> nested_data option \<Rightarrow> pstate \<Rightarrow> string list \<Rightarrow> string
     \<Rightarrow> nat \<Rightarrow> (pykey \<times> pyval) list \<Rightarrow> (nat \<times> pyval list \<times> lm_locals \<times> pstate) option" where
  "round_start D E root_dir ignore nd s files_before fl idx items_before =
     (case load_modules_files D E root_dir ignore nd files_before
             (\<lparr>all_module_definitions = [], skipped_a_module = False\<rparr>, s) of
        (Some e, LM1, s1) \<Rightarrow> None
      | (None, LM1, s1) \<Rightarrow>
          (case map_of (out_definitions s1) fl of
             None \<Rightarrow> None
           | Some r \<Rightarrow>
               (case hget (heap s1) r of
                  PDict file_data \<Rightarrow>
                    (case dict_get file_data (KStr ''module'') of
                       PList module_calls \<Rightarrow>
                         (case load_modules_calls D E root_dir ignore nd fl r
                                 (zip [0..<idx] (take idx module_calls)) (LM1, s1) of
                            (Some e, LM2, s2) \<Rightarrow> None
                          | (None, LM2, s2) \<Rightarrow>
                              (case load_modules_names D E root_dir ignore nd fl r idx items_before
                                      (LM2, s2) of
                                 (Some e, LM3, s3) \<Rightarrow> None
                               | (None, LM3, s3) \<Rightarrow> Some (r, module_calls, LM3, s3)))
                     | _ \<Rightarrow> None)
                | _ \<Rightarrow> None)))"

lemma pass_reaches_round:
  assumes fl: "dirname fl = root_dir" "\<not> endswith fl '']''"
    and rs: "round_start D E root_dir ig nd s pre fl idx items_pre = Some (r, module_calls, LM, sc)"
    and idx: "idx < length module_calls"
             "module_calls ! idx = PDict (items_pre @ (name, data) # items_post)"
    and round: "load_module_call D E root_dir ig nd fl r idx name data (LM, sc) = (None, LMr, sr)"
  shows "lm_le LMr (fst (snd (load_modules_files D E root_dir ig nd (pre @ fl # post)
                               (\<lparr>all_module_definitions = [], skipped_a_module = False\<rparr>, s))))"
proof -
  define LM0 where "LM0 = \<lparr>all_module_definitions = [], skipped_a_module = False\<rparr>"
  from rs obtain LM1 s1 file_data LM2 s2 where
    p1: "load_modules_files D E root_dir ig nd pre (LM0, s) = (None, LM1, s1)"
    and m: "map_of (out_definitions s1) fl = Some r"
    and h: "hget (heap s1) r = PDict file_data"
    and mc: "dict_get file_data (KStr ''module'') = PList module_calls"
    and p2: "load_modules_calls D E root_dir ig nd fl r (zip [0..<idx] (take idx module_calls)) (LM1, s1)
               = (None, LM2, s2)"
    and p3: "load_modules_names D E root_dir ig nd fl r idx items_pre (LM2, s2) = (None, LM, sc)"
    unfolding round_start_def LM0_def[symmetric]
    by (auto split: prod.splits option.splits pyval.splits)
  obtain exn LMn sn where n: "load_modules_names D E root_dir ig nd fl r idx items_post (LMr, sr)
                                = (exn, LMn, sn)"
    by (cases "load_modules_names D E root_dir ig nd fl r idx items_post (LMr, sr)")
  have names: "load_modules_names D E root_dir ig nd fl r idx
                 (items_pre @ (name, data) # items_post) (LM2, s2) = (exn, LMn, sn)"
    using p3 round n by (simp add: load_modules_names_append)
  define rest where "rest = zip [Suc idx..<length module_calls] (drop (Suc idx) module_calls)"
  obtain exc LMc sc' where c: "load_modules_calls D E root_dir ig nd fl r
        ((idx, module_calls ! idx) # rest) (LM2, s2) = (exc, LMc, sc')"
    by (cases "load_modules_calls D E root_dir ig nd fl r ((idx, module_calls ! idx) # rest) (LM2, s2)")
  have le_c: "lm_le LMn LMc"
  proof (cases exn)
    case None
    with c names idx(2) have "load_modules_calls D E root_dir ig nd fl r rest (LMn, sn) = (exc, LMc, sc')"
      by simp
    then show ?thesis by (rule load_modules_calls_le)
  next
    case (Some e)
    with c names idx(2) show ?thesis by (simp add: lm_le_refl)
  qed
  have calls: "load_modules_calls D E root_dir ig nd fl r
                 (zip [0..<length module_calls] module_calls) (LM1, s1) = (exc, LMc, sc')"
    using p2 c by (simp add: zip_upt_split[OF idx(1)] load_modules_calls_append rest_def)
  obtain exf LMf sf where f: "load_modules_files D E root_dir ig nd (fl # post) (LM1, s1) = (exf, LMf, sf)"
    by (cases "load_modules_files D E root_dir ig nd (fl # post) (LM1, s1)")
  have le_f: "lm_le LMc LMf"
  proof (cases exc)
    case None
    with f fl m h mc calls have "load_modules_files D E root_dir ig nd post (LMc, sc') = (exf, LMf, sf)"
      by simp
    then show ?thesis by (rule load_modules_files_le)
  next
    case (Some e)
    with f fl m h mc calls show ?thesis by (simp add: lm_le_refl)
  qed
  have "load_modules_files D E root_dir ig nd (pre @ fl # post) (LM0, s) = (exf, LMf, sf)"
    using p1 f by (simp add: load_modules_files_append)
  moreover have "lm_le LMr LMf"
    using load_modules_names_le[OF n] le_c le_f by (blast intro: lm_le_trans)
  ultimately show ?thesis by (simp add: LM0_def)
qed

lemma load_modules_reports:
  assumes "load_modules D E root_dir ig nd s = (Inr b, s')"
  shows "b = skipped_a_module (fst (snd
            (load_modules_files D E root_dir ig nd (map fst (out_definitions s))
               (\<lparr>all_module_definitions = [], skipped_a_module = False\<rparr>, s))))"
  using assms
  by (auto simp: load_modules_def split: prod.splits option.splits if_splits)

text \<open>
  C2 (amended). Take a module call of a file of the directory with an unresolved parameter,
  in flat mode one that is not loaded yet. The round of the first pass that reaches it
  defers it: it sets \<open>skipped_a_module\<close> and loads nothing (in nested mode it registers
  the call). The first pass, when it returns, therefore reports a skipped module, and the
  loop runs exactly one more pass, the forced one: two passes, not eleven. When the forced
  pass reaches the call and returns, the loader returns the content of the module, the
  directory load of the content returns without an exception, the list the resolver starts
  from holds only strings (it is empty for a call without \<^verbatim>\<open>__resolved__\<close> entry), and
  in nested mode the instance key has not been visited, then a definition of the content's
  directory has its instance key in the definition store when the loop ends. The store is a
  \<^verbatim>\<open>dict\<close>: its keys are distinct.
\<close>

theorem unresolved_call_forced_on_second_pass:
  assumes site1: "map fst (out_definitions (pass_start E A s0)) = pre @ fl # post"
    and fl: "dirname fl = a_directory A" "\<not> endswith fl '']''"
    and reach1: "round_start D E (a_directory A) False (a_nested_modules_data A) (pass_start E A s0)
                   pre fl idx items_pre = Some (r, module_calls, LM, s)"
    and call1: "idx < length module_calls"
               "module_calls ! idx = PDict (items_pre @ (name, PDict data) # items_post)"
    and fresh1: "enable_nested_modules E \<or> (fl, idx, name) \<notin> loaded_modules s"
    and unres: "module_params data = Inr sv" "has_unresolved_params E sv"
    and pass1: "load_modules D E (a_directory A) False (a_nested_modules_data A) (pass_start E A s0)
                  = (Inr b, s2)"
    and site2: "map fst (out_definitions (pass_start E A s2)) = pre' @ fl # post'"
    and reach2: "round_start D E (a_directory A) True (a_nested_modules_data A) (pass_start E A s2)
                   pre' fl idx items_pre' = Some (r', module_calls', LM', s')"
    and call2: "idx < length module_calls'"
               "module_calls' ! idx = PDict (items_pre' @ (name, PDict data') # items_post')"
    and fresh2: "enable_nested_modules E \<or> (fl, idx, name) \<notin> loaded_modules s'"
    and params2: "module_params data' = Inr sv'"
    and src: "dict_get data' (KStr ''source'') = PList (PStr source0 # sources)"
    and reg: "registry_load E (a_directory A) (resolved_source fl source0) (call_version data')
                = Inr content"
    and ld: "mc_loaded content"
    and desc: "D (module_dl_args content sv' idx fl (a_nested_modules_data A))
                 (call_start E (a_nested_modules_data A) fl idx name s') = (None, s1)"
    and dist: "distinct (map fst (out_definitions s1))"
    and res0: "read_resolved E (get_file_key_with_nested_data fl (a_nested_modules_data A), idx, name)
                 r' idx name s1 = PList xs"
              "list_all is_str xs"
    and key: "(key, rk) \<in> set (out_definitions s1)" "dirname key = mc_path content"
             "\<not> endswith key '']''"
    and nv: "enable_nested_modules E \<longrightarrow>
               instance_key E key fl idx (a_nested_modules_data A)
                 \<notin> visited_definition_keys s1 \<union> visit_marks E key fl idx (a_nested_modules_data A)"
    and pass2: "load_modules D E (a_directory A) True (a_nested_modules_data A) (pass_start E A s2)
                  = (Inr b', s4)"
  shows "load_module_call D E (a_directory A) False (a_nested_modules_data A) fl r idx name
           (PDict data) (LM, s)
         = (None, LM\<lparr>skipped_a_module := True\<rparr>, registered E (a_nested_modules_data A) fl idx name s)
       \<and> b
       \<and> module_load_loop D E A [0..<10] False s0 = (None, 2, s4)
       \<and> instance_key E key fl idx (a_nested_modules_data A) \<in> fst ` set (out_definitions s4)"
proof -
  define nd where "nd = a_nested_modules_data A"
  define LM0 where "LM0 = \<lparr>all_module_definitions = [], skipped_a_module = False\<rparr>"
  note round1 = round_deferred[OF fresh1 unres, of D "a_directory A" nd r LM]
  have "lm_le (LM\<lparr>skipped_a_module := True\<rparr>)
          (fst (snd (load_modules_files D E (a_directory A) False nd (pre @ fl # post) (LM0, pass_start E A s0))))"
    unfolding LM0_def
    by (rule pass_reaches_round[OF fl reach1[folded nd_def] call1 round1])
  then have "skipped_a_module
          (fst (snd (load_modules_files D E (a_directory A) False nd
                       (map fst (out_definitions (pass_start E A s0))) (LM0, pass_start E A s0))))"
    by (simp add: lm_le_def site1)
  with load_modules_reports[OF pass1] have b: b by (simp add: LM0_def nd_def)
  have upt: "[0..<10] = 0 # 1 # [2..<10]" by (simp add: upt_rec)
  from pass1 b have p1: "load_modules D E (a_directory A) False (a_nested_modules_data A)
                           (pass_start E A s0) = (Inr True, s2)" by simp
  have loop: "module_load_loop D E A [0..<10] False s0 = (None, 2, s4)"
    unfolding upt using second_pass_forced[OF p1, of 0 1 "[2..<10]"] pass2 by simp
  define T where "T = load_module_try D E (a_directory A) nd fl r' idx name sv'
                        (resolved_source fl source0) (call_version data')
                        (LM', call_start E nd fl idx name s')"
  have round2: "load_module_call D E (a_directory A) True nd fl r' idx name (PDict data') (LM', s')
                  = (None, fst (snd T), snd (snd T))"
    using round_forced[OF fresh2 params2 src, of D "a_directory A" nd r' LM'] by (simp add: T_def)
  have in_T: "instance_key E key fl idx nd \<in> dom (map_of (all_module_definitions (fst (snd T))))"
    unfolding T_def
    by (rule load_module_try_adds[where D = D and s = "call_start E nd fl idx name s'" and rk = rk,
          OF fl(2) reg ld desc[folded nd_def] dist res0[folded nd_def] key nv[folded nd_def]])
  have "lm_le (fst (snd T))
          (fst (snd (load_modules_files D E (a_directory A) True nd (pre' @ fl # post') (LM0, pass_start E A s2))))"
    unfolding LM0_def
    by (rule pass_reaches_round[OF fl reach2[folded nd_def] call2 round2])
  with in_T have "instance_key E key fl idx nd
      \<in> dom (map_of (all_module_definitions
            (fst (snd (load_modules_files D E (a_directory A) True nd
                         (map fst (out_definitions (pass_start E A s2))) (LM0, pass_start E A s2))))))"
    by (auto simp: lm_le_def site2)
  with load_modules_merges[OF pass2] have "instance_key E key fl idx nd \<in> dom (map_of (out_definitions s4))"
    by (auto simp: LM0_def nd_def)
  then have k: "instance_key E key fl idx nd \<in> fst ` set (out_definitions s4)"
    by (simp add: dom_map_of_conv_image_fst)
  from round1 b loop k show ?thesis by (simp add: nd_def)
qed

text \<open>
  The scenario of the specification: \<^verbatim>\<open>/r/main.tf\<close> calls the module \<^verbatim>\<open>./mod\<close> with
  \<^verbatim>\<open>x = var.unknown\<close> (decoded by \<^verbatim>\<open>hcl2\<close> as the string \<^verbatim>\<open>${var.unknown}\<close>), and
  \<^verbatim>\<open>/r/mod/main.tf\<close> holds a resource and the variable \<^verbatim>\<open>x\<close>.
\<close>

definition call_data :: "(pykey \<times> pyval) list" where
  "call_data = [(KStr ''source'', PList [PStr ''./mod'']),
                (KStr ''x'', PList [PStr ''${var.unknown}''])]"

definition module_env :: env where
  "module_env = base_env
     \<lparr>scandir := (\<lambda>d. if d = ''/r'' then Inr [file_entry ''/r'' ''main.tf'', subdir_entry ''/r'' ''mod'']
                       else if d = ''/r/mod'' then Inr [file_entry ''/r/mod'' ''main.tf'']
                       else Inl (OSError ''no such directory'')),
      hcl2_load := (\<lambda>p.
        if p = ''/r/main.tf''
        then Inr (PDict [(KStr ''module'', PList [PDict [(KStr ''m'', PDict call_data)]])])
        else if p = ''/r/mod/main.tf''
        then Inr (PDict [(KStr ''resource'',
                          PList [PDict [(KStr ''t'',
                                   PDict [(KStr ''n'', PDict [(KStr ''v'', PList [PStr ''${var.x}''])])])]]),
                         (KStr ''variable'', PList [PDict [(KStr ''x'', PDict [])]])])
        else Inl (OSError ''no such file'')),
      walk_sub_dirs := (\<lambda>d. [''/r'', ''/r/mod''])\<rparr>"

text \<open>The state when the module-load loop of \<^verbatim>\<open>/r\<close> starts.\<close>

definition before_loop :: pstate where
  "before_loop = snd (load_dir_vars module_env root_args new_parser)"

text \<open>
  C2 as stated fails at the scenario: the first pass skips the call and leaves only
  \<^verbatim>\<open>/r/main.tf\<close> in the store; the loop then ends after its second pass, which is the
  forced one and produces the instance key. No ten passes precede it.
\<close>

theorem forced_pass_is_the_second:
  "fst (load_modules (internal_dir_load 2 module_env) module_env ''/r'' False None before_loop)
     = Inr True
   \<and> map fst (out_definitions (snd
        (load_modules (internal_dir_load 2 module_env) module_env ''/r'' False None before_loop)))
     = [''/r/main.tf'']
   \<and> fst (snd (module_load_loop (internal_dir_load 2 module_env) module_env root_args
                  [0..<10] False before_loop)) = 2
   \<and> map fst (out_definitions (snd (snd
        (module_load_loop (internal_dir_load 2 module_env) module_env root_args
           [0..<10] False before_loop))))
     = [''/r/main.tf'', ''/r/mod/main.tf[/r/main.tf#0]'']"
  by code_simp

text \<open>The states of the scenario after the first pass, after the directory load of the
  module on the forced pass, and after the forced pass.\<close>

definition after_first_pass :: pstate where
  "after_first_pass =
     snd (load_modules (internal_dir_load 2 module_env) module_env ''/r'' False None before_loop)"

definition module_dir_loaded :: pstate where
  "module_dir_loaded =
     snd (internal_dir_load 2 module_env
            (module_dl_args \<lparr>mc_loaded = True, mc_path = ''/r/mod''\<rparr>
               [(KStr ''x'', PStr ''${var.unknown}'')] 0 ''/r/main.tf'' None)
            (call_start module_env None ''/r/main.tf'' 0 (KStr ''m'') after_first_pass))"

definition after_forced_pass :: pstate where
  "after_forced_pass =
     snd (load_modules (internal_dir_load 2 module_env) module_env ''/r'' True None after_first_pass)"

theorem unresolved_call_forced_on_second_pass_witness:
  "load_module_call (internal_dir_load 2 module_env) module_env ''/r'' False None ''/r/main.tf'' 0 0
       (KStr ''m'') (PDict call_data) (no_locals, before_loop)
     = (None, no_locals\<lparr>skipped_a_module := True\<rparr>, before_loop)
   \<and> module_load_loop (internal_dir_load 2 module_env) module_env root_args [0..<10] False before_loop
     = (None, 2, after_forced_pass)
   \<and> ''/r/mod/main.tf[/r/main.tf#0]'' \<in> fst ` set (out_definitions after_forced_pass)"
proof -
  define D where "D = internal_dir_load 2 module_env"
  define payload where
    "payload = PDict [(KStr ''module'', PList [PDict [(KStr ''m'', PDict call_data)]])]"
  have flat: "\<not> enable_nested_modules module_env"
    by (simp add: module_env_def base_env_def)
  have ps: "pass_start module_env root_args st = st" for st
    using flat by (simp add: pass_start_def)
  have dir: "a_directory root_args = ''/r''" and nd: "a_nested_modules_data root_args = None"
    by (simp_all add: root_args_def)
  have site1: "map fst (out_definitions (pass_start module_env root_args before_loop))
                 = [] @ ''/r/main.tf'' # []"
    unfolding ps by code_simp
  have fl: "dirname ''/r/main.tf'' = a_directory root_args" "\<not> endswith ''/r/main.tf'' '']''"
    unfolding dir by code_simp+
  have m1: "map_of (out_definitions before_loop) ''/r/main.tf'' = Some 0" by code_simp
  have h1: "hget (heap before_loop) 0 = payload" unfolding payload_def by code_simp
  have reach1: "round_start D module_env (a_directory root_args) False (a_nested_modules_data root_args)
                  (pass_start module_env root_args before_loop) [] ''/r/main.tf'' 0 []
                = Some (0, [PDict [(KStr ''m'', PDict call_data)]], no_locals, before_loop)"
    unfolding ps dir nd
    by (simp add: round_start_def m1 h1 payload_def dict_get_def no_locals_def)
  have call1: "0 < length [PDict [(KStr ''m'', PDict call_data)]]"
    "[PDict [(KStr ''m'', PDict call_data)]] ! 0 = PDict ([] @ (KStr ''m'', PDict call_data) # [])"
    by simp_all
  have fresh1: "enable_nested_modules module_env
                \<or> (''/r/main.tf'', 0, KStr ''m'') \<notin> loaded_modules before_loop"
    by code_simp
  have unres: "module_params call_data = Inr [(KStr ''x'', PStr ''${var.unknown}'')]"
    "has_unresolved_params module_env [(KStr ''x'', PStr ''${var.unknown}'')]"
    by code_simp+
  have "fst (load_modules (internal_dir_load 2 module_env) module_env ''/r'' False None before_loop)
          = Inr True" by code_simp
  then have pass1: "load_modules D module_env (a_directory root_args) False
                      (a_nested_modules_data root_args) (pass_start module_env root_args before_loop)
                    = (Inr True, after_first_pass)"
    unfolding ps dir nd D_def after_first_pass_def by (simp add: prod_eq_iff)
  have site2: "map fst (out_definitions (pass_start module_env root_args after_first_pass))
                 = [] @ ''/r/main.tf'' # []"
    unfolding ps by code_simp
  have m2: "map_of (out_definitions after_first_pass) ''/r/main.tf'' = Some 0" by code_simp
  have h2: "hget (heap after_first_pass) 0 = payload" unfolding payload_def by code_simp
  have reach2: "round_start D module_env (a_directory root_args) True (a_nested_modules_data root_args)
                  (pass_start module_env root_args after_first_pass) [] ''/r/main.tf'' 0 []
                = Some (0, [PDict [(KStr ''m'', PDict call_data)]], no_locals, after_first_pass)"
    unfolding ps dir nd
    by (simp add: round_start_def m2 h2 payload_def dict_get_def no_locals_def)
  have fresh2: "enable_nested_modules module_env
                \<or> (''/r/main.tf'', 0, KStr ''m'') \<notin> loaded_modules after_first_pass"
    by code_simp
  have src: "dict_get call_data (KStr ''source'') = PList (PStr ''./mod'' # [])" by code_simp
  have reg: "registry_load module_env (a_directory root_args) (resolved_source ''/r/main.tf'' ''./mod'')
               (call_version call_data) = Inr \<lparr>mc_loaded = True, mc_path = ''/r/mod''\<rparr>"
    unfolding dir by code_simp
  have ld: "mc_loaded \<lparr>mc_loaded = True, mc_path = ''/r/mod''\<rparr>" by simp
  have "fst (internal_dir_load 2 module_env
            (module_dl_args \<lparr>mc_loaded = True, mc_path = ''/r/mod''\<rparr>
               [(KStr ''x'', PStr ''${var.unknown}'')] 0 ''/r/main.tf'' None)
            (call_start module_env None ''/r/main.tf'' 0 (KStr ''m'') after_first_pass)) = None"
    by code_simp
  then have desc: "D (module_dl_args \<lparr>mc_loaded = True, mc_path = ''/r/mod''\<rparr>
                       [(KStr ''x'', PStr ''${var.unknown}'')] 0 ''/r/main.tf''
                       (a_nested_modules_data root_args))
                     (call_start module_env (a_nested_modules_data root_args) ''/r/main.tf'' 0
                        (KStr ''m'') after_first_pass)
                   = (None, module_dir_loaded)"
    unfolding nd D_def module_dir_loaded_def by (simp add: prod_eq_iff)
  have dist: "distinct (map fst (out_definitions module_dir_loaded))" by code_simp
  have res0: "read_resolved module_env
                (get_file_key_with_nested_data ''/r/main.tf'' (a_nested_modules_data root_args), 0, KStr ''m'')
                0 0 (KStr ''m'') module_dir_loaded = PList []"
             "list_all is_str []"
    unfolding nd by code_simp+
  have key: "(''/r/mod/main.tf'', 1) \<in> set (out_definitions module_dir_loaded)"
    "dirname ''/r/mod/main.tf'' = mc_path \<lparr>mc_loaded = True, mc_path = ''/r/mod''\<rparr>"
    "\<not> endswith ''/r/mod/main.tf'' '']''"
    by code_simp+
  have nv: "enable_nested_modules module_env \<longrightarrow>
               instance_key module_env ''/r/mod/main.tf'' ''/r/main.tf'' 0 (a_nested_modules_data root_args)
                 \<notin> visited_definition_keys module_dir_loaded
                     \<union> visit_marks module_env ''/r/mod/main.tf'' ''/r/main.tf'' 0
                         (a_nested_modules_data root_args)"
    using flat by simp
  have "fst (load_modules (internal_dir_load 2 module_env) module_env ''/r'' True None after_first_pass)
          = Inr False" by code_simp
  then have pass2: "load_modules D module_env (a_directory root_args) True
                      (a_nested_modules_data root_args) (pass_start module_env root_args after_first_pass)
                    = (Inr False, after_forced_pass)"
    unfolding ps dir nd D_def after_forced_pass_def by (simp add: prod_eq_iff)
  have ik: "instance_key module_env ''/r/mod/main.tf'' ''/r/main.tf'' 0 None
              = ''/r/mod/main.tf[/r/main.tf#0]''"
    by code_simp
  have rg: "registered module_env None ''/r/main.tf'' 0 (KStr ''m'') before_loop = before_loop"
    using flat by (simp add: registered_def)
  from unresolved_call_forced_on_second_pass[OF site1 fl reach1 call1 fresh1 unres pass1 site2 reach2
         call1 fresh2 unres(1) src reg ld desc dist res0 key nv pass2]
  show ?thesis by (simp add: dir nd ik rg D_def)
qed

text \<open>The same scenario in nested mode: the first pass defers the call, the loop runs its
  two passes, and the instance key is in the store.\<close>

definition nested_module_env :: env where
  "nested_module_env = module_env\<lparr>enable_nested_modules := True\<rparr>"

lemma nested_mode_two_passes:
  "fst (load_modules (internal_dir_load 2 nested_module_env) nested_module_env ''/r'' False None
          (snd (load_dir_vars nested_module_env root_args new_parser))) = Inr True
   \<and> fst (snd (module_load_loop (internal_dir_load 2 nested_module_env) nested_module_env root_args
                 [0..<10] False (snd (load_dir_vars nested_module_env root_args new_parser)))) = 2
   \<and> instance_key nested_module_env ''/r/mod/main.tf'' ''/r/main.tf'' 0 None
       \<in> fst ` set (out_definitions (snd (snd
            (module_load_loop (internal_dir_load 2 nested_module_env) nested_module_env root_args
               [0..<10] False (snd (load_dir_vars nested_module_env root_args new_parser))))))"
  by code_simp

text \<open>The bound at the scenario above: the loop of \<^verbatim>\<open>/r\<close> runs its two passes.\<close>

theorem module_load_loop_terminates_witness:
  "fst (snd (module_load_loop (internal_dir_load 2 module_env) module_env root_args
               (1 # [2..<10]) True before_loop)) = 1
   \<and> (\<exists>ex passes s'. module_load_loop (internal_dir_load 2 module_env) module_env root_args
                         [0..<10] False before_loop = (ex, passes, s')
         \<and> 1 \<le> passes \<and> passes \<le> 10)
   \<and> fst (snd (module_load_loop (internal_dir_load 2 module_env) module_env root_args
                  [0..<10] False before_loop)) = 2"
proof -
  have "fst (snd (module_load_loop (internal_dir_load 2 module_env) module_env root_args
                  [0..<10] False before_loop)) = 2"
    by code_simp
  with module_load_loop_terminates[of "internal_dir_load 2 module_env" module_env root_args
         before_loop False before_loop 1 "[2..<10]"]
  show ?thesis by blast
qed

section \<open>The resolved lists are sorted and free of duplicates\<close>

text \<open>What the claim asks of a \<^verbatim>\<open>__resolved__\<close> entry: a list of strings in ascending
  order without a repetition.\<close>

definition sorted_key_list :: "pyval \<Rightarrow> bool" where
  "sorted_key_list v =
     (case v of
        PList xs \<Rightarrow> list_all is_str xs \<and> sorted (str_values xs) \<and> distinct (str_values xs)
      | _ \<Rightarrow> False)"

text \<open>
  The shape of a payload whose module calls carry either no \<^verbatim>\<open>__resolved__\<close> entry or
  such a list: every value under the key \<^verbatim>\<open>module\<close> that is a list holds only calls
  whose named data mappings have an absent (\<^verbatim>\<open>None\<close>) or sorted entry.
\<close>

definition entry_ok :: "pyval \<Rightarrow> bool" where
  "entry_ok v = (v = PNone \<or> sorted_key_list v)"

definition data_ok :: "pyval \<Rightarrow> bool" where
  "data_ok v = (case v of PDict data \<Rightarrow> entry_ok (dict_get data RESOLVED_MODULE_ENTRY_NAME) | _ \<Rightarrow> True)"

definition call_ok :: "pyval \<Rightarrow> bool" where
  "call_ok c = (case c of PDict items \<Rightarrow> list_all (\<lambda>(name, v). data_ok v) items | _ \<Rightarrow> True)"

definition calls_ok :: "pyval \<Rightarrow> bool" where
  "calls_ok v = (case v of PList calls \<Rightarrow> list_all call_ok calls | _ \<Rightarrow> True)"

definition payload_ok :: "pyval \<Rightarrow> bool" where
  "payload_ok p =
     (case p of
        PDict d \<Rightarrow> list_all (\<lambda>(k, v). k = KStr ''module'' \<longrightarrow> calls_ok v) d
      | _ \<Rightarrow> True)"

text \<open>Reading an entry of such a payload, writing a sorted list into it, and merging two
  such payloads.\<close>

lemma list_all_update:
  "list_all P al \<Longrightarrow> P (k, v) \<Longrightarrow> list_all P (AList.update k v al)"
  by (induction al) auto

lemma list_all_list_update:
  "list_all P xs \<Longrightarrow> P x \<Longrightarrow> list_all P (xs[i := x])"
  by (induction xs arbitrary: i) (auto split: nat.splits)

lemma list_all_map_of:
  "list_all P al \<Longrightarrow> map_of al k = Some v \<Longrightarrow> P (k, v)"
  by (auto simp: list_all_iff dest: map_of_SomeD)

lemma payload_ok_entry:
  assumes "payload_ok p"
  shows "entry_ok (resolved_entry p i n)"
proof (cases "module_call_data_of p i n")
  case None
  then show ?thesis by (simp add: resolved_entry_def entry_ok_def)
next
  case (Some data)
  then obtain d calls call where p: "p = PDict d"
    and m: "map_of d (KStr ''module'') = Some (PList calls)"
    and i: "i < length calls" and c: "calls ! i = PDict call"
    and n: "map_of call n = Some (PDict data)"
    by (auto simp: module_call_data_of_def split: pyval.splits option.splits if_splits)
  from assms p m have "calls_ok (PList calls)"
    by (auto simp: payload_ok_def dest: list_all_map_of)
  with i c have "call_ok (PDict call)" by (auto simp: calls_ok_def list_all_length)
  with n have "data_ok (PDict data)" by (auto simp: call_ok_def dest: list_all_map_of)
  with Some show ?thesis by (simp add: resolved_entry_def data_ok_def)
qed

lemma set_resolved_entry_ok:
  assumes "payload_ok p" and "entry_ok v"
  shows "payload_ok (set_resolved_entry p i n v)"
proof (cases "module_call_data_of p i n")
  case None
  with assms show ?thesis by (simp add: set_resolved_entry_def)
next
  case (Some data)
  then obtain d calls call where p: "p = PDict d"
    and m: "map_of d (KStr ''module'') = Some (PList calls)"
    and i: "i < length calls" and c: "calls ! i = PDict call"
    and n: "map_of call n = Some (PDict data)"
    by (auto simp: module_call_data_of_def split: pyval.splits option.splits if_splits)
  from assms p m have co: "list_all call_ok calls"
    by (auto simp: payload_ok_def calls_ok_def dest: list_all_map_of)
  with i c have "call_ok (PDict call)" by (auto simp: list_all_length)
  then have la: "list_all (\<lambda>(name, v). data_ok v) call" by (simp add: call_ok_def)
  have "data_ok (PDict (AList.update RESOLVED_MODULE_ENTRY_NAME v data))"
    using assms(2) by (simp add: data_ok_def dict_get_def update_conv')
  with la have "call_ok (PDict (AList.update n (PDict (AList.update RESOLVED_MODULE_ENTRY_NAME v data)) call))"
    by (simp add: call_ok_def list_all_update)
  with co have "calls_ok (PList (calls[i := PDict (AList.update n
                   (PDict (AList.update RESOLVED_MODULE_ENTRY_NAME v data)) call)]))"
    by (simp add: calls_ok_def list_all_list_update)
  with assms(1) p have "payload_ok (PDict (AList.update (KStr ''module'')
          (PList (calls[i := PDict (AList.update n
                   (PDict (AList.update RESOLVED_MODULE_ENTRY_NAME v data)) call)])) d))"
    by (simp add: payload_ok_def list_all_update)
  with Some p m i c show ?thesis
    by (simp add: set_resolved_entry_def set_module_call_data_def)
qed

lemma set_resolved_entry_overwrite:
  "set_resolved_entry (set_resolved_entry p i n w) i n v = set_resolved_entry p i n v"
proof (cases "module_call_data_of p i n")
  case None
  then show ?thesis by (simp add: set_resolved_entry_def)
next
  case (Some data)
  then obtain d calls call where p: "p = PDict d"
    and m: "map_of d (KStr ''module'') = Some (PList calls)"
    and i: "i < length calls" and c: "calls ! i = PDict call"
    and n: "map_of call n = Some (PDict data)"
    by (auto simp: module_call_data_of_def split: pyval.splits option.splits if_splits)
  define dw where "dw = AList.update RESOLVED_MODULE_ENTRY_NAME w data"
  define cw where "cw = AList.update n (PDict dw) call"
  define pw where "pw = PDict (AList.update (KStr ''module'') (PList (calls[i := PDict cw])) d)"
  have 1: "set_resolved_entry p i n w = pw"
    using Some p m i c
    by (simp add: set_resolved_entry_def set_module_call_data_def pw_def cw_def dw_def)
  have 2: "module_call_data_of pw i n = Some dw"
    using i by (simp add: module_call_data_of_def pw_def cw_def update_conv')
  have 3: "set_resolved_entry pw i n v
        = PDict (AList.update (KStr ''module'')
            (PList (calls[i := PDict (AList.update n
               (PDict (AList.update RESOLVED_MODULE_ENTRY_NAME v data)) call)])) d)"
    using i 2
    by (simp add: set_resolved_entry_def set_module_call_data_def pw_def cw_def dw_def update_conv')
  have 4: "set_resolved_entry p i n v
        = PDict (AList.update (KStr ''module'')
            (PList (calls[i := PDict (AList.update n
               (PDict (AList.update RESOLVED_MODULE_ENTRY_NAME v data)) call)])) d)"
    using Some p m i c
    by (simp add: set_resolved_entry_def set_module_call_data_def)
  show ?thesis unfolding 1 3 4 ..
qed

lemma calls_ok_deep_merge:
  "calls_ok a \<Longrightarrow> calls_ok b \<Longrightarrow> calls_ok (deep_merge a b)"
  by (cases b; cases a) (auto simp: calls_ok_def)

lemma deep_merge_items_ok:
  "list_all (\<lambda>(k, v). k = KStr ''module'' \<longrightarrow> calls_ok v) as \<Longrightarrow>
   list_all (\<lambda>(k, v). k = KStr ''module'' \<longrightarrow> calls_ok v) bs \<Longrightarrow>
   list_all (\<lambda>(k, v). k = KStr ''module'' \<longrightarrow> calls_ok v) (deep_merge_items as bs)"
proof (induction bs arbitrary: as)
  case Nil
  then show ?case by simp
next
  case (Cons kv bs)
  obtain k v where kv: "kv = (k, v)" by (cases kv)
  from Cons.prems kv have v: "k = KStr ''module'' \<longrightarrow> calls_ok v"
    and bs: "list_all (\<lambda>(k, v). k = KStr ''module'' \<longrightarrow> calls_ok v) bs" by simp_all
  show ?case
  proof (cases "map_of as k")
    case None
    have "list_all (\<lambda>(k, v). k = KStr ''module'' \<longrightarrow> calls_ok v) (as @ [(k, v)])"
      using Cons.prems(1) v by simp
    from Cons.IH[OF this bs] None kv show ?thesis by simp
  next
    case (Some av)
    with Cons.prems(1) have "k = KStr ''module'' \<longrightarrow> calls_ok av"
      by (auto dest: list_all_map_of)
    with v have "k = KStr ''module'' \<longrightarrow> calls_ok (deep_merge av v)"
      by (simp add: calls_ok_deep_merge)
    with Cons.prems(1)
    have "list_all (\<lambda>(k, v). k = KStr ''module'' \<longrightarrow> calls_ok v) (AList.update k (deep_merge av v) as)"
      by (simp add: list_all_update)
    from Cons.IH[OF this bs] Some kv show ?thesis by simp
  qed
qed

lemma deep_merge_ok:
  "payload_ok a \<Longrightarrow> payload_ok b \<Longrightarrow> payload_ok (deep_merge a b)"
  by (cases b; cases a) (auto simp: payload_ok_def deep_merge_items_ok)

lemma strs_map: "list_all is_str xs \<Longrightarrow> map PStr (str_values xs) = xs"
proof (induction xs)
  case Nil
  then show ?case by simp
next
  case (Cons x xs)
  then show ?case by (cases x) simp_all
qed

lemma strs_distinct: "list_all is_str xs \<Longrightarrow> distinct xs \<Longrightarrow> distinct (str_values xs)"
  by (metis strs_map distinct_map)

lemma sort_resolved_ok:
  assumes "list_all is_str xs" and "distinct xs"
  shows "\<exists>ys. sort_resolved (PList xs) = Inr (PList ys) \<and> sorted_key_list (PList ys)"
proof (cases "length xs \<le> 1")
  case True
  then have "length (map PStr (str_values xs)) \<le> 1" using assms(1) by (simp add: strs_map)
  then have "length (str_values xs) \<le> 1" by simp
  then have "sorted (str_values xs)" by (cases "str_values xs") (auto simp: le_Suc_eq)
  with True assms show ?thesis
    by (simp add: py_sort_def sorted_key_list_def strs_distinct)
next
  case False
  have "list_all is_str (map PStr (sort (str_values xs)))" by (simp add: list_all_iff)
  moreover have "str_values (map PStr (sort (str_values xs))) = sort (str_values xs)"
    by (rule str_values_PStr)
  ultimately show ?thesis using False assms
    by (simp add: py_sort_def sorted_key_list_def strs_distinct)
qed

lemma sorted_key_list_strs:
  "sorted_key_list v \<Longrightarrow> \<exists>xs. v = PList xs \<and> list_all is_str xs \<and> distinct xs"
proof -
  assume a: "sorted_key_list v"
  then obtain xs where v: "v = PList xs" and s: "list_all is_str xs" and d: "distinct (str_values xs)"
    by (auto simp: sorted_key_list_def split: pyval.splits)
  from d have "distinct (map PStr (str_values xs))" by (simp add: distinct_map inj_on_def)
  with s have "distinct xs" by (simp add: strs_map)
  with v s show ?thesis by blast
qed


text \<open>
  The invariant of the parser's state: the keys of the definition store are distinct (it is
  a \<^verbatim>\<open>dict\<close>), every payload object is of the shape above, and every list of
  \<open>module_to_resolved\<close> is sorted and free of duplicates. The raw parser is a parameter:
  \<open>files_ok\<close> says that the payloads it returns are of that shape, as they are when no
  parsed file declares an attribute \<^verbatim>\<open>__resolved__\<close> of its own.
\<close>

definition resolver_ok :: "pstate \<Rightarrow> bool" where
  "resolver_ok s =
     (distinct (map fst (out_definitions s)) \<and> list_all payload_ok (heap s)
      \<and> list_all (\<lambda>(address, v). sorted_key_list v) (module_to_resolved s))"

definition files_ok :: "env \<Rightarrow> bool" where
  "files_ok E = (\<forall>path. payload_ok (fst (load_or_die_quietly E path Map.empty True)))"

text \<open>Stages 1 and 2 keep the invariant.\<close>

lemma heap_ok_hget: "list_all payload_ok h \<Longrightarrow> payload_ok (hget h r)"
  by (simp add: hget_def list_all_length payload_ok_def)

lemma load_files_parse_ok:
  "files_ok E \<Longrightarrow> resolver_ok s \<Longrightarrow> resolver_ok (snd (load_files_parse E files (ftd, s)))"
proof (induction files arbitrary: ftd s)
  case Nil
  then show ?case by simp
next
  case (Cons fl files)
  obtain result parsing_errors where
    lq: "load_or_die_quietly E (de_path fl) Map.empty True = (result, parsing_errors)"
    by (cases "load_or_die_quietly E (de_path fl) Map.empty True")
  from Cons.prems(1) have "payload_ok (fst (load_or_die_quietly E (de_path fl) Map.empty True))"
    by (simp add: files_ok_def)
  with lq have ok: "payload_ok result" by simp
  define s1 where "s1 = s\<lparr>heap := heap s @ [result],
                 out_parsing_errors := out_parsing_errors s ++ parsing_errors\<rparr>"
  define s2 where "s2 = (if loaded_files_map s1 (de_path fl) = None
                then s1\<lparr>loaded_files_map := (loaded_files_map s1)(de_path fl \<mapsto> length (heap s))\<rparr>
                else s1)"
  have "resolver_ok s2" using Cons.prems(2) ok by (simp add: s2_def s1_def resolver_ok_def)
  moreover have "load_files_parse E (fl # files) (ftd, s)
                   = load_files_parse E files (ftd @ [(de_path fl, length (heap s))], s2)"
    using lq by (simp add: Let_def s1_def s2_def)
  ultimately show ?case using Cons.IH[OF Cons.prems(1)] by simp
qed

lemma load_files_ok:
  "files_ok E \<Longrightarrow> resolver_ok s \<Longrightarrow> resolver_ok (snd (load_files E files s))"
  by (simp add: load_files_def load_files_parse_ok)

lemma store_files_ok:
  "resolver_ok s \<Longrightarrow> resolver_ok (snd (store_files xs (vm, s)))"
proof (induction xs arbitrary: vm s)
  case Nil
  then show ?case by simp
next
  case (Cons x xs)
  obtain fl r where x: "x = (fl, r)" by (cases x)
  show ?case
  proof (cases "truthy (hget (heap s) r)")
    case False
    with Cons x show ?thesis by (simp add: Let_def)
  next
    case True
    define s1 where "s1 = s\<lparr>out_definitions := AList.update fl r (out_definitions s)\<rparr>"
    have ok1: "resolver_ok s1" using Cons.prems
      by (simp add: s1_def resolver_ok_def distinct_update)
    have ok2: "resolver_ok (s1\<lparr>external_variables_data := evd\<rparr>)" for evd
      using ok1 by (simp add: resolver_ok_def)
    show ?thesis using x True ok1 Cons.IH[OF ok1] Cons.IH[OF ok2]
      by (simp add: Let_def s1_def[symmetric] split: pyval.splits sum.splits prod.splits)
  qed
qed

lemma bind_vars_ok:
  "resolver_ok s \<Longrightarrow> resolver_ok (snd (bind_vars items origin (vm, s)))"
  by (simp add: bind_vars_def resolver_ok_def)

lemma bind_env_vars_ok:
  "resolver_ok s \<Longrightarrow> resolver_ok (snd (bind_env_vars vars (vm, s)))"
  by (induction vars arbitrary: vm s) (auto simp: resolver_ok_def)

lemma bind_var_files_ok:
  "resolver_ok s \<Longrightarrow> resolver_ok (snd (bind_var_files xs (vm, s)))"
proof (induction xs arbitrary: vm s)
  case Nil
  then show ?case by simp
next
  case (Cons x xs)
  obtain var_file r where x: "x = (var_file, r)" by (cases x)
  show ?case
  proof (cases "truthy (hget (heap s) r)")
    case False
    with Cons x show ?thesis by (simp add: Let_def)
  next
    case True
    show ?thesis
    proof (cases "py_items (hget (heap s) r)")
      case (Inl e)
      with Cons.prems x True show ?thesis by (simp add: Let_def)
    next
      case (Inr items)
      obtain vm1 s1 where b: "bind_vars items var_file (vm, s) = (vm1, s1)"
        by (cases "bind_vars items var_file (vm, s)")
      with bind_vars_ok[OF Cons.prems, of items var_file vm] have "resolver_ok s1" by simp
      from Cons.IH[OF this, of vm1] b x True Inr show ?thesis by (simp add: Let_def)
    qed
  qed
qed

text \<open>A step of the variable resolver that keeps the invariant.\<close>

definition keeps_ok :: "(var_map \<times> pstate \<Rightarrow> (exn + var_map) \<times> pstate) \<Rightarrow> bool" where
  "keeps_ok f = (\<forall>vm s. resolver_ok s \<longrightarrow> resolver_ok (snd (f (vm, s))))"

lemma step_env_ok: "keeps_ok (step_env E)"
  by (simp add: keeps_ok_def step_env_def split_beta bind_env_vars_ok)

lemma errs_ok: "resolver_ok s \<Longrightarrow> resolver_ok (s\<lparr>out_parsing_errors := errs\<rparr>)"
  by (simp add: resolver_ok_def)

lemma step_hcl_tfvars_ok: "keeps_ok (step_hcl_tfvars E F)"
  unfolding keeps_ok_def
proof (intro allI impI)
  fix vm s assume ok: "resolver_ok s"
  show "resolver_ok (snd (step_hcl_tfvars E F (vm, s)))"
    using ok errs_ok[OF ok] bind_vars_ok[OF errs_ok[OF ok]]
    by (simp add: step_hcl_tfvars_def Let_def split_beta split: option.splits sum.splits)
qed

lemma step_json_tfvars_ok: "keeps_ok (step_json_tfvars E F)"
  unfolding keeps_ok_def
proof (intro allI impI)
  fix vm s assume ok: "resolver_ok s"
  show "resolver_ok (snd (step_json_tfvars E F (vm, s)))"
    using ok errs_ok[OF ok] bind_vars_ok[OF errs_ok[OF ok]]
    by (simp add: step_json_tfvars_def Let_def split_beta split: option.splits sum.splits)
qed

lemma step_auto_vars_ok: "files_ok E \<Longrightarrow> keeps_ok (step_auto_vars E F)"
  unfolding keeps_ok_def
proof (intro allI impI)
  fix vm s assume f: "files_ok E" and ok: "resolver_ok s"
  obtain ftd s1 where l: "load_files E (auto_vars_files F) s = (ftd, s1)"
    by (cases "load_files E (auto_vars_files F) s")
  with load_files_ok[OF f ok, of "auto_vars_files F"] have "resolver_ok s1" by simp
  from bind_var_files_ok[OF this] l
  show "resolver_ok (snd (step_auto_vars E F (vm, s)))" by (simp add: step_auto_vars_def)
qed

lemma step_explicit_vars_ok: "files_ok E \<Longrightarrow> keeps_ok (step_explicit_vars E vf F)"
  unfolding keeps_ok_def
proof (intro allI impI)
  fix vm s assume f: "files_ok E" and ok: "resolver_ok s"
  obtain ftd s1 where l: "load_files E (explicit_var_files F) s = (ftd, s1)"
    by (cases "load_files E (explicit_var_files F) s")
  with load_files_ok[OF f ok, of "explicit_var_files F"] have "resolver_ok s1" by simp
  from bind_var_files_ok[OF this] l
  show "resolver_ok (snd (step_explicit_vars E vf F (vm, s)))" by (simp add: step_explicit_vars_def)
qed

lemma step_specified_ok: "keeps_ok (step_specified sv)"
  by (simp add: keeps_ok_def step_specified_def split_beta bind_vars_ok split: option.splits)

lemma then_step_ok:
  "keeps_ok f \<Longrightarrow> resolver_ok (snd x) \<Longrightarrow> resolver_ok (snd (then_step x f))"
proof -
  assume k: "keeps_ok f" and ok: "resolver_ok (snd x)"
  obtain r0 s0 where x: "x = (r0, s0)" by (cases x)
  show ?thesis using k ok x by (cases r0) (auto simp: keeps_ok_def)
qed

lemma step_defaults_ok:
  "files_ok E \<Longrightarrow> resolver_ok s \<Longrightarrow> resolver_ok (snd (step_defaults E F s))"
proof -
  assume f: "files_ok E" and ok: "resolver_ok s"
  obtain ftd s1 where l: "load_files E (tf_files_to_load F) s = (ftd, s1)"
    by (cases "load_files E (tf_files_to_load F) s")
  with load_files_ok[OF f ok, of "tf_files_to_load F"] have "resolver_ok s1" by simp
  from store_files_ok[OF this] l show ?thesis by (simp add: step_defaults_def)
qed

lemma load_dir_vars_ok:
  assumes f: "files_ok E" and ok: "resolver_ok s"
  shows "resolver_ok (snd (load_dir_vars E A s))"
proof (cases "dir_files E A")
  case (Inl e)
  with ok show ?thesis by (simp add: load_dir_vars_def)
next
  case (Inr F)
  note d = step_defaults_ok[OF f ok, of F]
  show ?thesis
    unfolding load_dir_vars_def Inr sum.case
    by (intro then_step_ok step_specified_ok step_explicit_vars_ok step_auto_vars_ok
          step_json_tfvars_ok step_hcl_tfvars_ok step_env_ok f d)
qed


text \<open>
  The key-rewriting loop under the invariant: every key it visits is in both maps, so no
  lookup fails, and the resolved list stays a list of distinct strings; the sort after the
  loop then succeeds. Writing the list three times leaves what the last write leaves.
\<close>

lemma rewrite_keys_ok:
  "distinct ks \<Longrightarrow>
   (\<forall>k \<in> set ks. k \<in> dom (map_of (module_definitions L)) \<and> k \<in> dom (map_of (out_definitions s))) \<Longrightarrow>
   resolved_loc_list L = PList xs \<Longrightarrow> list_all is_str xs \<Longrightarrow> distinct xs \<Longrightarrow>
   distinct (map fst (out_definitions s)) \<Longrightarrow>
   \<exists>L' s' xs'. rewrite_keys E fl idx name nd ks (L, s) = (None, L', s')
      \<and> resolved_loc_list L' = PList xs' \<and> list_all is_str xs' \<and> distinct xs'
      \<and> heap s' = heap s \<and> module_to_resolved s' = module_to_resolved s
      \<and> distinct (map fst (out_definitions s'))"
proof (induction ks arbitrary: L s xs)
  case Nil
  then show ?case by simp
next
  case (Cons key ks)
  from Cons.prems(1) have d: "distinct ks" and nk: "key \<notin> set ks" by simp_all
  from Cons.prems(2) obtain r ro where r: "map_of (module_definitions L) key = Some r"
    and ro: "map_of (out_definitions s) key = Some ro" by auto
  have tail: "\<exists>L' s' xs'. rewrite_keys E fl idx name nd ks (L2, s2) = (None, L', s')
      \<and> resolved_loc_list L' = PList xs' \<and> list_all is_str xs' \<and> distinct xs'
      \<and> heap s' = heap s \<and> module_to_resolved s' = module_to_resolved s
      \<and> distinct (map fst (out_definitions s'))"
    if h2: "heap s2 = heap s" and m2: "module_to_resolved s2 = module_to_resolved s"
      and o2: "out_definitions s2 = AList.delete key (out_definitions s)"
      and md2: "module_definitions L2 = AList.delete key (module_definitions L)
                \<or> (\<exists>new_key. module_definitions L2
                       = AList.delete key (AList.update new_key r (module_definitions L)))"
      and rl2: "resolved_loc_list L2 = PList xs2" and st2: "list_all is_str xs2"
      and di2: "distinct xs2"
    for L2 s2 xs2
  proof -
    have "\<forall>k \<in> set ks. k \<in> dom (map_of (module_definitions L2)) \<and> k \<in> dom (map_of (out_definitions s2))"
    proof
      fix k assume k: "k \<in> set ks"
      with nk have ne: "k \<noteq> key" by auto
      from k Cons.prems(2) have a: "k \<in> dom (map_of (module_definitions L))"
        and b: "k \<in> dom (map_of (out_definitions s))" by simp_all
      from md2 a ne have "k \<in> dom (map_of (module_definitions L2))"
        by (auto simp: delete_conv' update_conv')
      moreover from o2 b ne have "k \<in> dom (map_of (out_definitions s2))"
        by (auto simp: delete_conv')
      ultimately show "k \<in> dom (map_of (module_definitions L2)) \<and> k \<in> dom (map_of (out_definitions s2))" ..
    qed
    moreover have "distinct (map fst (out_definitions s2))"
      using Cons.prems(6) o2 by (simp add: distinct_delete)
    ultimately show ?thesis
      using Cons.IH[OF d _ rl2 st2 di2, of s2] h2 m2 by simp
  qed
  show ?case
  proof (cases "endswith key '']'' \<or> endswith fl '']''")
    case True
    from Cons.prems(2) have m: "\<forall>k \<in> set ks. k \<in> dom (map_of (module_definitions L))
        \<and> k \<in> dom (map_of (out_definitions s))" by simp
    from Cons.IH[OF d m Cons.prems(3,4,5,6)] True show ?thesis by simp
  next
    case False
    define nkv where "nkv = (if enable_nested_modules E
        then get_new_nested_module_key key fl idx nd (visited_definition_keys s)
        else (get_tf_definition_key_from_module_dependency key fl idx, visited_definition_keys s))"
    define new_key where "new_key = fst nkv"
    define visited where "visited = snd nkv"
    have n1: "get_new_nested_module_key key fl idx nd (visited_definition_keys s) = (new_key, visited)"
      if "enable_nested_modules E"
      using that by (simp add: new_key_def visited_def nkv_def)
    have n2: "get_tf_definition_key_from_module_dependency key fl idx = new_key"
             "visited_definition_keys s = visited"
      if "\<not> enable_nested_modules E"
      using that by (simp_all add: new_key_def visited_def nkv_def)
    define xs1 where "xs1 = (if PStr new_key \<in> set xs then xs else xs @ [PStr new_key])"
    have st1: "list_all is_str xs1" and di1: "distinct xs1"
      using Cons.prems(4,5) by (simp_all add: xs1_def)
    show ?thesis
    proof (cases "enable_nested_modules E \<and> new_key \<in> visited")
      case True
      define L2 where "L2 = L\<lparr>module_definitions := AList.delete key (module_definitions L)\<rparr>"
      define s2 where "s2 = s\<lparr>keys_referenced_as_modules := insert key (keys_referenced_as_modules s),
                              visited_definition_keys := visited,
                              out_definitions := AList.delete key (out_definitions s)\<rparr>"
      have step: "rewrite_keys E fl idx name nd (key # ks) (L, s)
                  = rewrite_keys E fl idx name nd ks (L2, s2)"
        using False True n1 ro by (simp add: Let_def L2_def s2_def)
      have "\<exists>L' s' xs'. rewrite_keys E fl idx name nd ks (L2, s2) = (None, L', s')
        \<and> resolved_loc_list L' = PList xs' \<and> list_all is_str xs' \<and> distinct xs'
        \<and> heap s' = heap s \<and> module_to_resolved s' = module_to_resolved s
        \<and> distinct (map fst (out_definitions s'))"
        by (rule tail[of s2 L2 xs])
           (simp_all add: L2_def s2_def Cons.prems(3,4,5))
      then show ?thesis unfolding step .
    next
      case nv: False
      define L2 where "L2 = L\<lparr>module_definitions :=
                                 AList.delete key (AList.update new_key r (module_definitions L)),
                              resolved_loc_list := PList xs1\<rparr>"
      define s1 where "s1 = s\<lparr>keys_referenced_as_modules := insert key (keys_referenced_as_modules s),
                             visited_definition_keys := visited,
                             out_definitions := AList.delete key (out_definitions s),
                             keys_to_remove := insert key (keys_to_remove s)\<rparr>"
      define s4 where "s4 = (if enable_nested_modules E
                             then s1\<lparr>visited_definition_keys := insert new_key (visited_definition_keys s1)\<rparr>
                             else s1)"
      define s5 where "s5 = (if module_address_map s4 (fl, name) = None
                             then s4\<lparr>module_address_map :=
                                       (module_address_map s4)((fl, name) \<mapsto> str_of_nat idx)\<rparr>
                             else s4)"
      have step: "rewrite_keys E fl idx name nd (key # ks) (L, s)
                  = rewrite_keys E fl idx name nd ks (L2, s5)"
      proof (cases "enable_nested_modules E")
        case True
        with nv have "new_key \<notin> visited" by simp
        with False True n1[OF True] r ro Cons.prems(3) show ?thesis
          by (simp add: Let_def L2_def s1_def s4_def s5_def xs1_def)
      next
        case flat: False
        with False n2[OF flat] r ro Cons.prems(3) show ?thesis
          by (simp add: Let_def L2_def s1_def s4_def s5_def xs1_def)
      qed
      have "\<exists>L' s' xs'. rewrite_keys E fl idx name nd ks (L2, s5) = (None, L', s')
        \<and> resolved_loc_list L' = PList xs' \<and> list_all is_str xs' \<and> distinct xs'
        \<and> heap s' = heap s \<and> module_to_resolved s' = module_to_resolved s
        \<and> distinct (map fst (out_definitions s'))"
      proof (rule tail[of s5 L2 xs1])
        show "module_definitions L2 = AList.delete key (module_definitions L)
                \<or> (\<exists>new_key. module_definitions L2
                       = AList.delete key (AList.update new_key r (module_definitions L)))"
          by (auto simp: L2_def)
      qed (simp_all add: L2_def s5_def s4_def s1_def st1 di1)
      then show ?thesis unfolding step .
    qed
  qed
qed

lemma merge_definitions_heap_ok:
  "list_all payload_ok h \<Longrightarrow> list_all payload_ok (snd (merge_definitions base incoming h))"
proof (induction incoming arbitrary: base h)
  case Nil
  then show ?case by simp
next
  case (Cons kr incoming)
  obtain k r where kr: "kr = (k, r)" by (cases kr)
  show ?case
  proof (cases "map_of base k")
    case None
    from Cons.IH[OF Cons.prems] None kr show ?thesis by simp
  next
    case (Some rb)
    have "payload_ok (deep_merge (hget h rb) (hget h r))"
      using Cons.prems by (simp add: deep_merge_ok heap_ok_hget)
    with Cons.prems have "list_all payload_ok (h[rb := deep_merge (hget h rb) (hget h r)])"
      by (simp add: list_all_list_update)
    from Cons.IH[OF this] Cons.IH[OF Cons.prems] Some kr show ?thesis by auto
  qed
qed

lemma merge_definitions_distinct:
  "distinct (map fst base) \<Longrightarrow> distinct (map fst (fst (merge_definitions base incoming h)))"
proof (induction incoming arbitrary: base h)
  case Nil
  then show ?case by simp
next
  case (Cons kr incoming)
  obtain k r where kr: "kr = (k, r)" by (cases kr)
  show ?case
  proof (cases "map_of base k")
    case None
    then have "k \<notin> fst ` set base" by (simp add: map_of_eq_None_iff)
    with Cons.prems have "distinct (map fst (base @ [(k, r)]))" by simp
    from Cons.IH[OF this] None kr show ?thesis by simp
  next
    case (Some rb)
    have "distinct (map fst (AList.update k r base))"
      using Cons.prems by (simp add: distinct_update)
    from Cons.IH[OF this] Cons.IH[OF Cons.prems] Some kr show ?thesis by auto
  qed
qed

lemma write_resolved_thrice:
  assumes "heap s3 = heap (write_resolved E cur r i n v0 s1)"
    and "module_to_resolved s3 = module_to_resolved (write_resolved E cur r i n v0 s1)"
  shows "heap (write_resolved E cur r i n v2 (write_resolved E cur r i n v1 s3))
           = heap (write_resolved E cur r i n v2 s1)"
    and "module_to_resolved (write_resolved E cur r i n v2 (write_resolved E cur r i n v1 s3))
           = module_to_resolved (write_resolved E cur r i n v2 s1)"
proof -
  show "module_to_resolved (write_resolved E cur r i n v2 (write_resolved E cur r i n v1 s3))
           = module_to_resolved (write_resolved E cur r i n v2 s1)"
    using assms(2) by (simp add: write_resolved_def)
  show "heap (write_resolved E cur r i n v2 (write_resolved E cur r i n v1 s3))
           = heap (write_resolved E cur r i n v2 s1)"
  proof (cases "r < length (heap s1)")
    case True
    then show ?thesis using assms(1)
      by (simp add: write_resolved_def hget_def set_resolved_entry_overwrite)
  next
    case False
    then show ?thesis using assms(1)
      by (simp add: write_resolved_def hget_def)
  qed
qed

lemma write_resolved_ok:
  assumes "resolver_ok s" and "sorted_key_list v"
  shows "list_all payload_ok (heap (write_resolved E cur r i n v s))"
    and "list_all (\<lambda>(address, v). sorted_key_list v)
           (module_to_resolved (write_resolved E cur r i n v s))"
  using assms
  by (simp_all add: write_resolved_def resolver_ok_def list_all_update list_all_list_update
        set_resolved_entry_ok heap_ok_hget entry_ok_def)

lemma read_resolved_strs:
  assumes "resolver_ok s"
  shows "\<exists>xs. read_resolved E cur r i n s = PList xs \<and> list_all is_str xs \<and> distinct xs"
proof (cases "enable_nested_modules E")
  case True
  show ?thesis
  proof (cases "map_of (module_to_resolved s) cur")
    case None
    with True show ?thesis by (simp add: read_resolved_def)
  next
    case (Some v)
    with assms have "sorted_key_list v"
      by (auto simp: resolver_ok_def dest: list_all_map_of)
    from sorted_key_list_strs[OF this] True Some show ?thesis by (simp add: read_resolved_def)
  qed
next
  case False
  from assms have "entry_ok (resolved_entry (hget (heap s) r) i n)"
    by (simp add: resolver_ok_def payload_ok_entry heap_ok_hget)
  then consider "resolved_entry (hget (heap s) r) i n = PNone"
    | "sorted_key_list (resolved_entry (hget (heap s) r) i n)"
    by (auto simp: entry_ok_def)
  then show ?thesis
  proof cases
    case 1
    with False show ?thesis by (simp add: read_resolved_def)
  next
    case 2
    from sorted_key_list_strs[OF this] False show ?thesis by (auto simp: read_resolved_def)
  qed
qed

lemma load_module_try_ok:
  assumes D: "\<forall>A s. resolver_ok s \<longrightarrow> resolver_ok (snd (D A s))" and ok: "resolver_ok s"
  shows "resolver_ok (snd (snd (load_module_try D E root_dir nd fl r idx name sv source version (LM, s))))"
proof (cases "registry_load E root_dir source version")
  case (Inl e)
  with ok show ?thesis by (simp add: load_module_try_def)
next
  case (Inr content)
  show ?thesis
  proof (cases "mc_loaded content")
    case False
    with Inr ok show ?thesis by (simp add: load_module_try_def)
  next
    case ld: True
    obtain ex s1 where desc: "D (module_dl_args content sv idx fl nd) s = (ex, s1)"
      by (cases "D (module_dl_args content sv idx fl nd) s")
    with D ok have ok1: "resolver_ok s1" by (metis snd_conv)
    define defs where "defs = filter (\<lambda>(path, d). dirname path = mc_path content) (out_definitions s1)"
    show ?thesis
    proof (cases "ex \<noteq> None \<or> defs = []")
      case True
      with Inr ld desc ok1 show ?thesis
        by (cases ex) (auto simp: load_module_try_def Let_def defs_def)
    next
      case False
      then have ex: "ex = None" and ne: "defs \<noteq> []" by simp_all
      define cur where "cur = (get_file_key_with_nested_data fl nd, idx, name)"
      define resolved0 where "resolved0 = read_resolved E cur r idx name s1"
      define s2 where "s2 = write_resolved E cur r idx name resolved0 s1"
      from read_resolved_strs[OF ok1, of E cur r idx name] obtain xs where
        r0: "resolved0 = PList xs" and strs: "list_all is_str xs" and dxs: "distinct xs"
        by (auto simp: resolved0_def)
      have o2: "out_definitions s2 = out_definitions s1"
        by (simp add: s2_def write_resolved_def)
      have dist: "distinct (map fst (out_definitions s1))" using ok1 by (simp add: resolver_ok_def)
      have dk: "distinct (map fst defs)" using dist by (simp add: defs_def distinct_map_filter)
      define L0 where "L0 = \<lparr>module_definitions = defs, resolved_loc_list = resolved0\<rparr>"
      have dom_defs: "\<forall>k \<in> set (map fst defs). k \<in> dom (map_of (module_definitions L0))
            \<and> k \<in> dom (map_of (out_definitions s2))"
        unfolding o2 by (auto simp: L0_def defs_def dom_map_of_conv_image_fst intro: rev_image_eqI)
      have rl0: "resolved_loc_list L0 = PList xs" by (simp add: L0_def r0)
      have d2: "distinct (map fst (out_definitions s2))" using dist o2 by simp
      from rewrite_keys_ok[OF dk dom_defs rl0 strs dxs d2, of E fl idx name nd]
      obtain L' s3 xs' where
        rk: "rewrite_keys E fl idx name nd (map fst defs) (L0, s2) = (None, L', s3)"
        and rl: "resolved_loc_list L' = PList xs'" and st: "list_all is_str xs'"
        and dx: "distinct xs'" and h3: "heap s3 = heap s2"
        and m3: "module_to_resolved s3 = module_to_resolved s2"
        and d3: "distinct (map fst (out_definitions s3))"
        by blast
      from sort_resolved_ok[OF st dx] rl obtain ys where
        so: "sort_resolved (resolved_loc_list L') = Inr (PList ys)"
        and sk: "sorted_key_list (PList ys)" by auto
      define s4 where "s4 = write_resolved E cur r idx name (resolved_loc_list L') s3"
      define s5 where "s5 = write_resolved E cur r idx name (PList ys) s4"
      have h5: "heap s5 = heap (write_resolved E cur r idx name (PList ys) s1)"
        and m5: "module_to_resolved s5 = module_to_resolved (write_resolved E cur r idx name (PList ys) s1)"
        unfolding s5_def s4_def
        using write_resolved_thrice[of s3 E cur r idx name resolved0 s1 "PList ys" "resolved_loc_list L'"]
              h3 m3 by (simp_all add: s2_def)
      have o5: "out_definitions s5 = out_definitions s3"
        by (simp add: s5_def s4_def write_resolved_def)
      have ok5: "resolver_ok s5"
        using write_resolved_ok[OF ok1 sk, of E cur r idx name] h5 m5 o5 d3
        by (simp add: resolver_ok_def)
      define h' where "h' = (if all_module_definitions LM \<noteq> []
                             then snd (merge_definitions (all_module_definitions LM)
                                         (module_definitions L') (heap s5))
                             else heap s5)"
      have hok: "list_all payload_ok h'"
        using ok5 by (simp add: h'_def resolver_ok_def merge_definitions_heap_ok)
      define s6 where "s6 = s5\<lparr>heap := h'\<rparr>"
      have ok6: "resolver_ok s6" using ok5 hok by (simp add: s6_def resolver_ok_def)
      have ok7: "resolver_ok (s6\<lparr>external_modules_source_map := m\<rparr>)" for m
        using ok6 by (simp add: resolver_ok_def)
      have "snd (snd (load_module_try D E root_dir nd fl r idx name sv source version (LM, s)))
            = (if \<not> is_hashable version then s6
               else s6\<lparr>external_modules_source_map :=
                        (external_modules_source_map s6)((source, version) \<mapsto> mc_path content)\<rparr>)"
        using Inr ld desc ex ne rk so
        by (simp add: load_module_try_def Let_def defs_def[symmetric] cur_def[symmetric]
              resolved0_def[symmetric] s2_def[symmetric] L0_def[symmetric] s4_def[symmetric]
              s5_def[symmetric] s6_def h'_def split: prod.splits)
      with ok6 ok7 show ?thesis by simp
    qed
  qed
qed


text \<open>A recursive directory load that keeps the invariant.\<close>

definition descent_ok :: "descend \<Rightarrow> bool" where
  "descent_ok D = (\<forall>A s. resolver_ok s \<longrightarrow> resolver_ok (snd (D A s)))"

lemma load_module_call_ok:
  assumes D: "descent_ok D" and ok: "resolver_ok s"
  shows "resolver_ok (snd (snd (load_module_call D E root_dir ignore nd fl r idx name data (LM, s))))"
proof -
  note D' = D[unfolded descent_ok_def]
  define cur where "cur = (get_file_key_with_nested_data fl nd, idx, name)"
  define v where "v = (case map_of (module_to_resolved s) cur of Some v \<Rightarrow> v | None \<Rightarrow> PList [])"
  have "sorted_key_list v"
  proof (cases "map_of (module_to_resolved s) cur")
    case None
    then show ?thesis by (simp add: v_def sorted_key_list_def)
  next
    case (Some w)
    with ok have "sorted_key_list w" by (auto simp: resolver_ok_def dest: list_all_map_of)
    with Some show ?thesis by (simp add: v_def)
  qed
  with ok have ok1: "resolver_ok (s\<lparr>module_to_resolved := AList.update cur v (module_to_resolved s)\<rparr>)"
    by (simp add: resolver_ok_def list_all_update)
  have ok2: "resolver_ok (s\<lparr>module_to_resolved := AList.update cur v (module_to_resolved s),
                              loaded_modules := X\<rparr>)" for X
    using ok1 by (simp add: resolver_ok_def)
  have ok3: "resolver_ok (s\<lparr>loaded_modules := X\<rparr>)" for X
    using ok by (simp add: resolver_ok_def)
  show ?thesis
  proof (cases "enable_nested_modules E")
    case True
    then show ?thesis
      using ok ok1 ok2 load_module_try_ok[OF D' ok2]
      by (simp add: load_module_call_def Let_def split_beta cur_def[symmetric] v_def[symmetric]
            split: sum.splits pyval.splits list.splits)
  next
    case False
    then show ?thesis
      using ok ok3 load_module_try_ok[OF D' ok3]
      by (simp add: load_module_call_def Let_def split_beta
            split: sum.splits pyval.splits list.splits)
  qed
qed

lemma load_modules_names_ok:
  "descent_ok D \<Longrightarrow> resolver_ok s \<Longrightarrow>
   resolver_ok (snd (snd (load_modules_names D E root_dir ignore nd fl r idx items (LM, s))))"
proof (induction items arbitrary: LM s)
  case Nil
  then show ?case by simp
next
  case (Cons item items)
  obtain name data where item: "item = (name, data)" by (cases item)
  obtain ex LM' s' where c: "load_module_call D E root_dir ignore nd fl r idx name data (LM, s) = (ex, LM', s')"
    by (cases "load_module_call D E root_dir ignore nd fl r idx name data (LM, s)")
  with load_module_call_ok[OF Cons.prems, of E root_dir ignore nd fl r idx name data LM]
  have ok': "resolver_ok s'" by simp
  show ?case using item c ok' Cons.IH[OF Cons.prems(1) ok'] by (cases ex) simp_all
qed

lemma load_modules_calls_ok:
  "descent_ok D \<Longrightarrow> resolver_ok s \<Longrightarrow>
   resolver_ok (snd (snd (load_modules_calls D E root_dir ignore nd fl r calls (LM, s))))"
proof (induction calls arbitrary: LM s)
  case Nil
  then show ?case by simp
next
  case (Cons c calls)
  obtain idx call where c: "c = (idx, call)" by (cases c)
  show ?case
  proof (cases call)
    case (PDict items)
    obtain ex LM' s' where n: "load_modules_names D E root_dir ignore nd fl r idx items (LM, s) = (ex, LM', s')"
      by (cases "load_modules_names D E root_dir ignore nd fl r idx items (LM, s)")
    with load_modules_names_ok[OF Cons.prems, of E root_dir ignore nd fl r idx items LM]
    have ok': "resolver_ok s'" by simp
    show ?thesis using c PDict n ok' Cons.IH[OF Cons.prems(1) ok'] by (cases ex) simp_all
  qed (use c Cons in simp_all)
qed

lemma load_modules_files_ok:
  "descent_ok D \<Longrightarrow> resolver_ok s \<Longrightarrow>
   resolver_ok (snd (snd (load_modules_files D E root_dir ignore nd files (LM, s))))"
proof (induction files arbitrary: LM s)
  case Nil
  then show ?case by simp
next
  case (Cons fl files)
  note skip = Cons.IH[OF Cons.prems]
  show ?case
  proof (cases "dirname fl \<noteq> root_dir \<or> endswith fl '']''")
    case True
    with skip show ?thesis by auto
  next
    case False
    show ?thesis
    proof (cases "map_of (out_definitions s) fl")
      case None
      with False skip show ?thesis by simp
    next
      case (Some r)
      show ?thesis
      proof (cases "hget (heap s) r")
        case (PDict file_data)
        show ?thesis
        proof (cases "dict_get file_data (KStr ''module'')")
          case (PList module_calls)
          obtain ex LM' s' where n:
            "load_modules_calls D E root_dir ignore nd fl r
               (zip [0..<length module_calls] module_calls) (LM, s) = (ex, LM', s')"
            by (cases "load_modules_calls D E root_dir ignore nd fl r
               (zip [0..<length module_calls] module_calls) (LM, s)")
          with load_modules_calls_ok[OF Cons.prems, of E root_dir ignore nd fl r
                 "zip [0..<length module_calls] module_calls" LM]
          have ok': "resolver_ok s'" by simp
          show ?thesis using False Some PDict PList n ok' Cons.IH[OF Cons.prems(1) ok']
            by (cases ex) simp_all
        qed (use False Some PDict skip in simp_all)
      qed (use False Some skip Cons.prems in simp_all)
    qed
  qed
qed

lemma load_modules_ok:
  assumes "descent_ok D" and "resolver_ok s"
  shows "resolver_ok (snd (load_modules D E root_dir ignore nd s))"
proof -
  define LM0 where "LM0 = \<lparr>all_module_definitions = [], skipped_a_module = False\<rparr>"
  obtain ex LM s1 where f: "load_modules_files D E root_dir ignore nd (map fst (out_definitions s)) (LM0, s)
      = (ex, LM, s1)"
    by (cases "load_modules_files D E root_dir ignore nd (map fst (out_definitions s)) (LM0, s)")
  with load_modules_files_ok[OF assms, of E root_dir ignore nd "map fst (out_definitions s)" LM0]
  have ok1: "resolver_ok s1" by simp
  have "resolver_ok (s1\<lparr>out_definitions := fst (merge_definitions (out_definitions s1) X (heap s1)),
                          heap := snd (merge_definitions (out_definitions s1) X (heap s1))\<rparr>)" for X
    using ok1 by (simp add: resolver_ok_def merge_definitions_heap_ok merge_definitions_distinct)
  with f ok1 show ?thesis
    by (cases ex) (simp_all add: load_modules_def LM0_def[symmetric] split_beta)
qed

lemma module_load_loop_ok:
  "descent_ok D \<Longrightarrow> resolver_ok s \<Longrightarrow>
   resolver_ok (snd (snd (module_load_loop D E A rng force s)))"
proof (induction rng arbitrary: force s)
  case Nil
  then show ?case by simp
next
  case (Cons i rest)
  have "resolver_ok (pass_start E A s)" using Cons.prems(2)
    by (simp add: pass_start_def resolver_ok_def)
  from load_modules_ok[OF Cons.prems(1) this, of E "a_directory A" force "a_nested_modules_data A"]
  obtain res s2 where l: "load_modules D E (a_directory A) force (a_nested_modules_data A)
                             (pass_start E A s) = (res, s2)" and ok2: "resolver_ok s2"
    by (cases "load_modules D E (a_directory A) force (a_nested_modules_data A) (pass_start E A s)") simp
  show ?case using l ok2 Cons.IH[OF Cons.prems(1) ok2, of True]
    by (cases res) (simp_all add: split_beta)
qed

lemma internal_dir_load_body_ok:
  assumes "descent_ok D" and "files_ok E" and "resolver_ok s"
  shows "resolver_ok (snd (internal_dir_load_body D E A s))"
proof -
  obtain res s1 where l: "load_dir_vars E A s = (res, s1)" by (cases "load_dir_vars E A s")
  with load_dir_vars_ok[OF assms(2,3), of A] have ok1: "resolver_ok s1" by simp
  show ?thesis using l ok1 module_load_loop_ok[OF assms(1) ok1, of E A "[0..<10]" False]
    by (cases res) (simp_all add: internal_dir_load_body_def split_beta)
qed

lemma internal_dir_load_ok:
  "files_ok E \<Longrightarrow> descent_ok (internal_dir_load limit E)"
proof (induction limit)
  case 0
  then show ?case by (simp add: descent_ok_def)
next
  case (Suc limit)
  then have "descent_ok (internal_dir_load limit E)" by simp
  with Suc.prems show ?case
    unfolding descent_ok_def[of "internal_dir_load (Suc limit) E"]
    by (simp add: internal_dir_load_body_ok)
qed

lemma walk_loop_ok:
  "files_ok E \<Longrightarrow> resolver_ok s \<Longrightarrow>
   resolver_ok (snd (walk_loop limit E excluded vars_files dirs s))"
proof (induction dirs arbitrary: s)
  case Nil
  then show ?case by simp
next
  case (Cons sub_dir rest)
  define A where "A = \<lparr>a_directory = sub_dir, a_specified_vars = None, a_vars_files = vars_files,
                 a_excluded_paths = excluded, a_nested_modules_data = None\<rparr>"
  define s0 where "s0 = s\<lparr>parsed_directories := insert (abspath E sub_dir) (parsed_directories s)\<rparr>"
  have ok0: "resolver_ok s0" using Cons.prems(2) by (simp add: s0_def resolver_ok_def)
  obtain ex s1 where l: "internal_dir_load limit E A s0 = (ex, s1)"
    by (cases "internal_dir_load limit E A s0")
  with internal_dir_load_ok[OF Cons.prems(1), of limit] ok0 have ok1: "resolver_ok s1"
    by (metis descent_ok_def snd_conv)
  show ?case
    using Cons.IH[OF Cons.prems] Cons.IH[OF Cons.prems(1) ok1] l ok1
    by (cases ex) (simp_all add: A_def[symmetric] s0_def[symmetric])
qed


text \<open>The nested-mode post-pass and \<^verbatim>\<open>parse_directory\<close>.\<close>

lemma list_all_delete: "list_all P al \<Longrightarrow> list_all P (AList.delete k al)"
  by (induction al) auto

lemma for_each_path_ok:
  "(\<And>path s. resolver_ok s \<Longrightarrow> resolver_ok (snd (R path s))) \<Longrightarrow> resolver_ok s \<Longrightarrow>
   resolver_ok (snd (for_each_path R paths s))"
proof (induction R paths s rule: for_each_path.induct)
  case (1 R s)
  then show ?case by simp
next
  case (2 R path paths s)
  obtain ex s1 where r: "R path s = (ex, s1)" by (cases "R path s")
  with 2(2)[OF 2(3), of path] have ok1: "resolver_ok s1" by simp
  show ?case using r ok1 2(1)[OF r[symmetric] _ 2(2) ok1] by (cases ex) simp_all
qed simp_all

lemma remove_resolved_of_ok:
  "(\<And>path s. resolver_ok s \<Longrightarrow> resolver_ok (snd (R path s))) \<Longrightarrow> resolver_ok s \<Longrightarrow>
   resolver_ok (snd (remove_resolved_of R selected keys s))"
proof (induction keys arbitrary: s)
  case Nil
  then show ?case by simp
next
  case (Cons key keys)
  show ?case
  proof (cases "selected (fst key)")
    case False
    with Cons show ?thesis by simp
  next
    case True
    show ?thesis
    proof (cases "map_of (module_to_resolved s) key")
      case None
      with True Cons.prems show ?thesis by simp
    next
      case (Some resolved)
      show ?thesis
      proof (cases "py_iter resolved")
        case (Inl e)
        with True Some Cons.prems show ?thesis by simp
      next
        case (Inr paths)
        obtain ex s1 where f: "for_each_path R paths s = (ex, s1)" by (cases "for_each_path R paths s")
        with for_each_path_ok[of R s paths] Cons.prems have ok1: "resolver_ok s1" by simp
        then have ok2: "resolver_ok (s1\<lparr>module_to_resolved := AList.delete key (module_to_resolved s1)\<rparr>)"
          by (simp add: resolver_ok_def list_all_delete)
        show ?thesis using True Some Inr f ok1 Cons.IH[OF Cons.prems(1) ok2]
          by (cases ex) simp_all
      qed
    qed
  qed
qed

lemma remove_unused_path_recursive_ok:
  "resolver_ok s \<Longrightarrow> resolver_ok (snd (remove_unused_path_recursive limit path s))"
proof (induction limit arbitrary: path s)
  case 0
  then show ?case by simp
next
  case (Suc limit)
  have "resolver_ok (s\<lparr>out_definitions := AList.delete path (out_definitions s)\<rparr>)"
    using Suc.prems by (simp add: resolver_ok_def distinct_delete)
  then show ?case using Suc.IH by (simp add: Let_def remove_resolved_of_ok)
qed

lemma attach_resolved_ok:
  "list_all (\<lambda>(address, v). sorted_key_list v) items \<Longrightarrow> resolver_ok s \<Longrightarrow>
   resolver_ok (snd (attach_resolved items s))"
proof (induction items arbitrary: s)
  case Nil
  then show ?case by simp
next
  case (Cons item items)
  obtain file_key midx mname resolved_list where
    item: "item = ((file_key, midx, mname), resolved_list)"
    by (cases item) auto
  from Cons.prems(1) item have sk: "sorted_key_list resolved_list"
    and rest: "list_all (\<lambda>(address, v). sorted_key_list v) items" by simp_all
  have "resolver_ok (s\<lparr>heap := (heap s)[r := set_resolved_entry (hget (heap s) r) midx
                                            mname resolved_list]\<rparr>)" for r
    using Cons.prems(2) sk
    by (simp add: resolver_ok_def list_all_list_update set_resolved_entry_ok heap_ok_hget entry_ok_def)
  then show ?case using item Cons.prems(2) Cons.IH[OF rest]
    by (simp split: option.splits)
qed

lemma update_resolved_modules_ok:
  assumes "resolver_ok s"
  shows "resolver_ok (snd (update_resolved_modules limit s))"
proof -
  obtain ex s1 where r: "remove_resolved_of (remove_unused_path_recursive limit)
             (\<lambda>file_key. file_key \<in> keys_to_remove s) (map fst (module_to_resolved s)) s = (ex, s1)"
    by (cases "remove_resolved_of (remove_unused_path_recursive limit)
             (\<lambda>file_key. file_key \<in> keys_to_remove s) (map fst (module_to_resolved s)) s")
  with remove_resolved_of_ok[of "remove_unused_path_recursive limit" s
         "\<lambda>file_key. file_key \<in> keys_to_remove s" "map fst (module_to_resolved s)"]
       assms remove_unused_path_recursive_ok
  have ok1: "resolver_ok s1" by simp
  then have "list_all (\<lambda>(address, v). sorted_key_list v) (module_to_resolved s1)"
    by (simp add: resolver_ok_def)
  from attach_resolved_ok[OF this ok1] r ok1 show ?thesis
    by (cases ex) (simp_all add: update_resolved_modules_def)
qed

lemma parse_directory_ok:
  assumes "files_ok E" and "distinct (map fst (out_definitions s))" and "list_all payload_ok (heap s)"
  shows "resolver_ok (snd (parse_directory limit E directory excluded vars_files s))"
proof -
  define s0 where "s0 = s\<lparr>external_modules_source_map := Map.empty, module_address_map := Map.empty,
                 visited_definition_keys := {}, module_to_resolved := [], keys_to_remove := {},
                 parsed_directories := {}, keys_referenced_as_modules := {}\<rparr>"
  have ok0: "resolver_ok s0" using assms(2,3) by (simp add: s0_def resolver_ok_def)
  obtain ex s1 where w: "walk_loop limit E excluded vars_files (walk_sub_dirs E directory) s0 = (ex, s1)"
    by (cases "walk_loop limit E excluded vars_files (walk_sub_dirs E directory) s0")
  with walk_loop_ok[OF assms(1) ok0, of limit excluded vars_files "walk_sub_dirs E directory"]
  have ok1: "resolver_ok s1" by simp
  define s2 where "s2 = s1\<lparr>out_definitions :=
                          filter (\<lambda>(key, r). key \<notin> keys_referenced_as_modules s1) (out_definitions s1)\<rparr>"
  have ok2: "resolver_ok s2" using ok1 by (simp add: s2_def resolver_ok_def distinct_map_filter)
  show ?thesis using w ok1 ok2 update_resolved_modules_ok[OF ok2, of limit]
    by (cases ex) (simp_all add: parse_directory_def Let_def s0_def[symmetric] s2_def[symmetric])
qed

text \<open>
  Where no parsed file sets the attribute itself, the lists are as the specification says.
  Let the payloads the raw parser returns carry no \<^verbatim>\<open>__resolved__\<close> entry that is not
  already a sorted list of distinct strings, and let \<^verbatim>\<open>parse_directory\<close> start from
  a definition store of that kind (an empty one, for instance). Then in the definition store
  it leaves, in flat and in nested mode and whether or not it ends with an exception, every
  \<^verbatim>\<open>__resolved__\<close> entry under \<^verbatim>\<open>module[index][name]\<close> is a list of strings in
  ascending order without duplicates.
\<close>

lemma clean_payloads_give_sorted_lists:
  assumes "files_ok E"
    and "distinct (map fst (out_definitions s))" and "list_all payload_ok (heap s)"
    and "(key, r) \<in> set (out_definitions (snd (parse_directory limit E directory excluded vars_files s)))"
    and "resolved_entry
           (hget (heap (snd (parse_directory limit E directory excluded vars_files s))) r)
           module_index module_name = v"
    and "v \<noteq> PNone"
  shows "\<exists>keys. v = PList (map PStr keys) \<and> sorted keys \<and> distinct keys"
proof -
  from parse_directory_ok[OF assms(1,2,3)]
  have "list_all payload_ok (heap (snd (parse_directory limit E directory excluded vars_files s)))"
    by (simp add: resolver_ok_def)
  then have "entry_ok v" using assms(5) by (auto simp: payload_ok_entry heap_ok_hget)
  with assms(6) have "sorted_key_list v" by (simp add: entry_ok_def)
  then obtain xs where v: "v = PList xs" and s: "list_all is_str xs"
    and so: "sorted (str_values xs)" and d: "distinct (str_values xs)"
    by (auto simp: sorted_key_list_def split: pyval.splits)
  from s have "xs = map PStr (str_values xs)" by (simp add: strs_map)
  with v so d show ?thesis by blast
qed


text \<open>
  A module directory with the files \<^verbatim>\<open>a.tf\<close> and \<^verbatim>\<open>a.tf.hcl\<close>: their instance keys
  are appended in the order of the file paths, and the sort exchanges them, \<^verbatim>\<open>.\<close> being
  smaller than \<^verbatim>\<open>[\<close>.
\<close>

definition two_files_env :: env where
  "two_files_env = base_env
     \<lparr>scandir := (\<lambda>d. if d = ''/r'' then Inr [file_entry ''/r'' ''main.tf'', subdir_entry ''/r'' ''mod'']
                       else if d = ''/r/mod''
                       then Inr [file_entry ''/r/mod'' ''a.tf'', file_entry ''/r/mod'' ''a.tf.hcl'']
                       else Inl (OSError ''no such directory'')),
      hcl2_load := (\<lambda>p.
        if p = ''/r/main.tf''
        then Inr (PDict [(KStr ''module'',
                          PList [PDict [(KStr ''m'', PDict [(KStr ''source'', PList [PStr ''./mod''])])]])])
        else if p = ''/r/mod/a.tf''
        then Inr (PDict [(KStr ''resource'',
                          PList [PDict [(KStr ''t'', PDict [(KStr ''a'', PDict [])])]])])
        else if p = ''/r/mod/a.tf.hcl''
        then Inr (PDict [(KStr ''resource'',
                          PList [PDict [(KStr ''t'', PDict [(KStr ''b'', PDict [])])]])])
        else Inl (OSError ''no such file''))\<rparr>"

lemma two_files_env_ok: "files_ok two_files_env"
  unfolding files_ok_def
proof
  fix path
  consider "path = ''/r/main.tf''" | "path = ''/r/mod/a.tf''" | "path = ''/r/mod/a.tf.hcl''"
    | "path \<noteq> ''/r/main.tf''" "path \<noteq> ''/r/mod/a.tf''" "path \<noteq> ''/r/mod/a.tf.hcl''"
    by blast
  then show "payload_ok (fst (load_or_die_quietly two_files_env path Map.empty True))"
  proof cases
    case 1
    have "payload_ok (fst (load_or_die_quietly two_files_env ''/r/main.tf'' Map.empty True))"
      by code_simp
    with 1 show ?thesis by simp
  next
    case 2
    have "payload_ok (fst (load_or_die_quietly two_files_env ''/r/mod/a.tf'' Map.empty True))"
      by code_simp
    with 2 show ?thesis by simp
  next
    case 3
    have "payload_ok (fst (load_or_die_quietly two_files_env ''/r/mod/a.tf.hcl'' Map.empty True))"
      by code_simp
    with 3 show ?thesis by simp
  next
    case 4
    then show ?thesis
      by (simp add: load_or_die_quietly_def two_files_env_def base_env_def Let_def payload_ok_def)
  qed
qed

lemma two_files_lists_sorted:
  "(''/r/main.tf'', 0)
     \<in> set (out_definitions (snd (parse_directory 3 two_files_env ''/r'' None None new_parser)))
   \<and> resolved_entry (hget (heap (snd (parse_directory 3 two_files_env ''/r'' None None new_parser))) 0)
        0 (KStr ''m'')
      = PList [PStr ''/r/mod/a.tf.hcl[/r/main.tf#0]'', PStr ''/r/mod/a.tf[/r/main.tf#0]'']
   \<and> (\<exists>keys. PList [PStr ''/r/mod/a.tf.hcl[/r/main.tf#0]'', PStr ''/r/mod/a.tf[/r/main.tf#0]'']
                = PList (map PStr keys) \<and> sorted keys \<and> distinct keys)"
proof -
  have k: "(''/r/main.tf'', 0)
     \<in> set (out_definitions (snd (parse_directory 3 two_files_env ''/r'' None None new_parser)))"
    by code_simp
  have e: "resolved_entry (hget (heap (snd (parse_directory 3 two_files_env ''/r'' None None new_parser))) 0)
        0 (KStr ''m'')
      = PList [PStr ''/r/mod/a.tf.hcl[/r/main.tf#0]'', PStr ''/r/mod/a.tf[/r/main.tf#0]'']"
    by code_simp
  have d: "distinct (map fst (out_definitions new_parser))" "list_all payload_ok (heap new_parser)"
    by (simp_all add: new_parser_def)
  from clean_payloads_give_sorted_lists[OF two_files_env_ok d k e] k e show ?thesis by simp
qed

text \<open>
  A module call may pass an argument named \<^verbatim>\<open>__resolved__\<close> of its own;
  \<^verbatim>\<open>module "m" { source = "./mod"  __resolved__ = ["z", "a"] }\<close> is decoded with the
  attribute value wrapped in a list. In flat mode the resolver takes this value as the list
  it appends the instance keys to.
\<close>

definition own_resolved_env :: env where
  "own_resolved_env = base_env
     \<lparr>scandir := (\<lambda>d. if d = ''/r'' then Inr [file_entry ''/r'' ''main.tf'', subdir_entry ''/r'' ''mod'']
                       else if d = ''/r/mod'' then Inr [file_entry ''/r/mod'' ''main.tf'']
                       else Inl (OSError ''no such directory'')),
      hcl2_load := (\<lambda>p.
        if p = ''/r/main.tf''
        then Inr (PDict [(KStr ''module'',
                          PList [PDict [(KStr ''m'',
                                   PDict [(KStr ''source'', PList [PStr ''./mod'']),
                                          (KStr ''__resolved__'', PList [PList [PStr ''z'', PStr ''a'']])])]])])
        else if p = ''/r/mod/main.tf''
        then Inr (PDict [(KStr ''resource'',
                          PList [PDict [(KStr ''t'', PDict [(KStr ''n'', PDict [])])]])])
        else Inl (OSError ''no such file''))\<rparr>"

text \<open>
  C6 at that input. The claim asks for a sorted list of definition keys. The code appends
  the instance key to the value of the file's own attribute, \<^verbatim>\<open>resolved_loc_list.sort()\<close>
  raises the \<^verbatim>\<open>TypeError\<close> of comparing a string with a list, the handler of the
  \<^verbatim>\<open>try\<close> statement logs it, and \<^verbatim>\<open>parse_directory\<close> returns normally with the
  unsorted list in the store and without the definitions of the module.
\<close>

theorem own_resolved_attribute_left_unsorted:
  "fst (parse_directory 3 own_resolved_env ''/r'' None None new_parser) = None
   \<and> out_definitions (snd (parse_directory 3 own_resolved_env ''/r'' None None new_parser))
       = [(''/r/main.tf'', 0)]
   \<and> resolved_entry (hget (heap (snd (parse_directory 3 own_resolved_env ''/r'' None None new_parser))) 0)
        0 (KStr ''m'')
      = PList [PList [PStr ''z'', PStr ''a''], PStr ''/r/mod/main.tf[/r/main.tf#0]'']
   \<and> \<not> sorted_key_list (PList [PList [PStr ''z'', PStr ''a''], PStr ''/r/mod/main.tf[/r/main.tf#0]''])
   \<and> sort_resolved (PList [PList [PStr ''z'', PStr ''a''], PStr ''/r/mod/main.tf[/r/main.tf#0]''])
       = Inl TypeError"
  by code_simp

end
